theory Spec2Isabelle
  imports Main
begin

section \<open>Strings and character classes\<close>

text \<open>
  A JavaScript string is a sequence of UTF-16 code units, and a regular expression
  without the \<^verbatim>\<open>u\<close> flag works on code units. A string is modelled as a
  \<^typ>\<open>string\<close>, one \<^typ>\<open>char\<close> for one code unit, which covers the code
  units U+0000 to U+00FF. The patterns of \<^verbatim>\<open>gradient.ts\<close> name ASCII characters
  only; the classes \<^verbatim>\<open>\s\<close> and \<^verbatim>\<open>\b\<close> are given for this range.
\<close>

definition js_space :: "char \<Rightarrow> bool" where
  \<comment> \<open>\<^verbatim>\<open>\s\<close>: TAB, LF, VT, FF, CR, SPACE, NBSP.\<close>
  "js_space c = (c \<in> set [CHR 0x09, CHR 0x0A, CHR 0x0B, CHR 0x0C, CHR 0x0D, CHR 0x20, CHR 0xA0])"

definition js_word_char :: "char \<Rightarrow> bool" where
  \<comment> \<open>The word characters of \<^verbatim>\<open>\b\<close>: letters, digits and the underscore.\<close>
  "js_word_char c =
     (c \<in> set ''abcdefghijklmnopqrstuvwxyzABCDEFGHIJKLMNOPQRSTUVWXYZ0123456789_'')"

definition canonicalize :: "char \<Rightarrow> char" where
  \<comment> \<open>Case folding under the \<^verbatim>\<open>i\<close> flag: upper case for the ASCII letters. A code
     unit from 128 on never folds to one below 128, so against the ASCII characters of
     the patterns every other code unit stands for itself.\<close>
  "canonicalize c =
     (case map_of (zip ''abcdefghijklmnopqrstuvwxyz'' ''ABCDEFGHIJKLMNOPQRSTUVWXYZ'') c of
        Some u \<Rightarrow> u
      | None \<Rightarrow> c)"

section \<open>Regular expressions: a backtracking matcher\<close>

text \<open>
  The three patterns of \<^verbatim>\<open>gradient.ts\<close> are sequences of single characters,
  character classes, repetitions of one class (greedy or lazy, captured or not) and word
  boundaries. A pattern is a list of nodes; \<open>rx_match\<close> is the backtracking matcher at one
  position, in the order in which the engine tries the alternatives: a greedy repetition
  tries the longest run first, a lazy one the shortest.
\<close>

datatype atom = Lit char | AnyOf string | NoneOf string | Space | AnyChar

fun atom_ok :: "bool \<Rightarrow> atom \<Rightarrow> char \<Rightarrow> bool" where
  "atom_ok ic (Lit a) c = (if ic then canonicalize a = canonicalize c else a = c)"
| "atom_ok ic (AnyOf as) c =
     (if ic then canonicalize c \<in> set (map canonicalize as) else c \<in> set as)"
| "atom_ok ic (NoneOf as) c =
     (\<not> (if ic then canonicalize c \<in> set (map canonicalize as) else c \<in> set as))"
| "atom_ok ic Space c = js_space c"
| "atom_ok ic AnyChar c = True"

datatype quant = Greedy | Lazy

datatype node = Ch atom | Rep quant nat atom | CapRep quant nat atom | WordBoundary

definition attempts :: "quant \<Rightarrow> nat \<Rightarrow> nat \<Rightarrow> nat list" where
  \<comment> \<open>The run lengths a repetition tries, in order, between its minimum and the longest
     run of the class at this position.\<close>
  "attempts q lo hi = (case q of Greedy \<Rightarrow> rev [lo..<Suc hi] | Lazy \<Rightarrow> [lo..<Suc hi])"

fun first_some :: "('a \<Rightarrow> 'b option) \<Rightarrow> 'a list \<Rightarrow> 'b option" where
  "first_some f [] = None"
| "first_some f (x # xs) = (case f x of Some y \<Rightarrow> Some y | None \<Rightarrow> first_some f xs)"

definition prev_after :: "char option \<Rightarrow> string \<Rightarrow> char option" where
  \<comment> \<open>The character before the current position, once \<open>consumed\<close> has been read.\<close>
  "prev_after prev consumed = (if consumed = [] then prev else Some (last consumed))"

definition at_boundary :: "char option \<Rightarrow> string \<Rightarrow> bool" where
  \<comment> \<open>\<^verbatim>\<open>\b\<close>: exactly one of the two neighbours is a word character; the ends of the
     input count as non-word.\<close>
  "at_boundary prev s =
     ((case prev of None \<Rightarrow> False | Some c \<Rightarrow> js_word_char c)
      \<noteq> (case s of [] \<Rightarrow> False | c # _ \<Rightarrow> js_word_char c))"

primrec rx_match ::
  "bool \<Rightarrow> node list \<Rightarrow> char option \<Rightarrow> string \<Rightarrow> string list \<Rightarrow> (string list \<times> string) option"
where
  "rx_match ic [] prev s caps = Some (caps, s)"
| "rx_match ic (n # ns) prev s caps =
     (case n of
        Ch a \<Rightarrow>
          (case s of
             [] \<Rightarrow> None
           | c # cs \<Rightarrow> if atom_ok ic a c then rx_match ic ns (Some c) cs caps else None)
      | Rep q lo a \<Rightarrow>
          first_some
            (\<lambda>k. rx_match ic ns (prev_after prev (take k s)) (drop k s) caps)
            (attempts q lo (length (takeWhile (atom_ok ic a) s)))
      | CapRep q lo a \<Rightarrow>
          first_some
            (\<lambda>k. rx_match ic ns (prev_after prev (take k s)) (drop k s) (caps @ [take k s]))
            (attempts q lo (length (takeWhile (atom_ok ic a) s)))
      | WordBoundary \<Rightarrow>
          if at_boundary prev s then rx_match ic ns prev s caps else None)"

text \<open>
  \<open>rx_search\<close> is \<^verbatim>\<open>RegExp.prototype.exec\<close>: the leftmost position at which the
  pattern matches, with the text before it, the matched text and the captures.
\<close>

fun rx_search ::
  "bool \<Rightarrow> node list \<Rightarrow> char option \<Rightarrow> string \<Rightarrow> (string \<times> string \<times> string list) option"
where
  "rx_search ic r prev [] =
     (case rx_match ic r prev [] [] of
        Some (caps, rest) \<Rightarrow> Some ([], [], caps)
      | None \<Rightarrow> None)"
| "rx_search ic r prev (c # cs) =
     (case rx_match ic r prev (c # cs) [] of
        Some (caps, rest) \<Rightarrow> Some ([], take (Suc (length cs) - length rest) (c # cs), caps)
      | None \<Rightarrow>
          map_option (\<lambda>(pre, whole, caps). (c # pre, whole, caps))
            (rx_search ic r (Some c) cs))"

definition rx_test :: "bool \<Rightarrow> node list \<Rightarrow> string \<Rightarrow> bool" where
  \<comment> \<open>\<^verbatim>\<open>regex.test(s)\<close> for a pattern without the \<^verbatim>\<open>g\<close> flag.\<close>
  "rx_test ic r s = (rx_search ic r None s \<noteq> None)"

definition js_replace ::
  "bool \<Rightarrow> node list \<Rightarrow> (string \<Rightarrow> string list \<Rightarrow> string) \<Rightarrow> string \<Rightarrow> string"
where
  \<comment> \<open>\<^verbatim>\<open>s.replace(regex, fn)\<close> for a pattern without the \<^verbatim>\<open>g\<close> flag: the first
     match only.\<close>
  "js_replace ic r f s =
     (case rx_search ic r None s of
        None \<Rightarrow> s
      | Some (pre, whole, caps) \<Rightarrow>
          pre @ f whole caps @ drop (length pre + length whole) s)"

text \<open>
  \<^verbatim>\<open>s.replace(regex, fn)\<close> for a pattern with the \<^verbatim>\<open>g\<close> flag first collects
  every match, searching again from the end of the last one (one code unit further after
  an empty match), and then calls the function once per match, in order, and joins the
  replacements with the text between the matches. \<open>rx_results\<close> is the first pass: each
  match with the unmatched text before it, and the unmatched text after the last one.
  \<open>rx_build\<close> is the second pass; the function's mutable variables are the state \<open>st\<close>.
\<close>

function rx_results ::
  "bool \<Rightarrow> node list \<Rightarrow> char option \<Rightarrow> string \<Rightarrow>
     (string \<times> string \<times> string list) list \<times> string"
where
  "rx_results ic r prev s =
     (case rx_search ic r prev s of
        None \<Rightarrow> ([], s)
      | Some (pre, whole, caps) \<Rightarrow>
          (if whole = [] then
             (case drop (length pre) s of
                [] \<Rightarrow> ([(pre, whole, caps)], [])
              | c # cs \<Rightarrow>
                  (case rx_results ic r (Some c) cs of
                     ([], tail) \<Rightarrow> ([(pre, whole, caps)], c # tail)
                   | ((pre', m) # segs, tail) \<Rightarrow>
                       ((pre, whole, caps) # (c # pre', m) # segs, tail)))
           else
             (case rx_results ic r (prev_after prev (pre @ whole))
                     (drop (length pre + length whole) s) of
                (segs, tail) \<Rightarrow> ((pre, whole, caps) # segs, tail))))"
  by pat_completeness auto
termination
proof (relation "measure (\<lambda>(ic, r, prev, s). length s)", goal_cases)
  case 1
  show ?case by simp
next
  case (2 ic r prev s x2 pre y whole caps c cs)
  from 2(5) have "length (c # cs) \<le> length s"
    by (metis length_drop diff_le_self)
  then show ?case by simp
next
  case (3 ic r prev s x2 pre y whole caps)
  have "s \<noteq> []"
  proof
    assume "s = []"
    with 3 show False by (auto split: option.splits)
  qed
  with 3(4) show ?case by (cases whole) auto
qed

declare rx_results.simps [simp del]

fun rx_build ::
  "('st \<Rightarrow> string \<Rightarrow> string list \<Rightarrow> string \<times> 'st) \<Rightarrow> 'st \<Rightarrow>
     (string \<times> string \<times> string list) list \<Rightarrow> string \<times> 'st"
where
  "rx_build f st [] = ([], st)"
| "rx_build f st ((pre, whole, caps) # segs) =
     (case f st whole caps of
        (replacement, st') \<Rightarrow>
          (case rx_build f st' segs of
             (out, st'') \<Rightarrow> (pre @ replacement @ out, st'')))"

definition rx_replace_from ::
  "bool \<Rightarrow> node list \<Rightarrow> ('st \<Rightarrow> string \<Rightarrow> string list \<Rightarrow> string \<times> 'st) \<Rightarrow> 'st \<Rightarrow>
     char option \<Rightarrow> string \<Rightarrow> string \<times> 'st"
where
  "rx_replace_from ic r f st prev s =
     (case rx_results ic r prev s of
        (segs, tail) \<Rightarrow>
          (case rx_build f st segs of
             (out, st') \<Rightarrow> (out @ tail, st')))"

definition js_replace_all ::
  "bool \<Rightarrow> node list \<Rightarrow> ('st \<Rightarrow> string \<Rightarrow> string list \<Rightarrow> string \<times> 'st) \<Rightarrow> 'st \<Rightarrow>
     string \<Rightarrow> string \<times> 'st"
where
  "js_replace_all ic r f st s = rx_replace_from ic r f st None s"

section \<open>The gradient transformer\<close>

definition lits :: "string \<Rightarrow> node list" where
  "lits s = map (\<lambda>c. Ch (Lit c)) s"

definition paragraphRx :: "node list" where
  \<comment> \<open>\<^verbatim>\<open>/<p([^>]*)>([\s\S]*?)<\/p>/gi\<close>\<close>
  "paragraphRx =
     lits ''<p'' @ [CapRep Greedy 0 (NoneOf ''>'')] @ lits ''>'' @
     [CapRep Lazy 0 AnyChar] @ lits ''</p>''"

definition classRegex :: "node list" where
  \<comment> \<open>\<^verbatim>\<open>/class="([^"]*)"/i\<close>\<close>
  "classRegex = lits ''class=\"'' @ [CapRep Greedy 0 (NoneOf ''\"'')] @ lits ''\"''"

definition clipRx :: "node list" where
  \<comment> \<open>\<^verbatim>\<open>/<span\s+class=["'][^"']*\bg-clip\b[^"']*["']/\<close>; the two quote characters are
     \<open>CHR 0x22\<close> and \<open>CHR 0x27\<close>.\<close>
  "clipRx =
     lits ''<span'' @ [Rep Greedy 1 Space] @ lits ''class='' @
     [Ch (AnyOf [CHR 0x22, CHR 0x27]), Rep Greedy 0 (NoneOf [CHR 0x22, CHR 0x27]),
      WordBoundary] @
     lits ''g-clip'' @
     [WordBoundary, Rep Greedy 0 (NoneOf [CHR 0x22, CHR 0x27]),
      Ch (AnyOf [CHR 0x22, CHR 0x27])]"

fun number_toString :: "nat \<Rightarrow> string" where
  "number_toString n =
     (if n < 10 then [''0123456789'' ! n]
      else number_toString (n div 10) @ [''0123456789'' ! (n mod 10)])"

declare number_toString.simps [simp del]

text \<open>
  The transform context: the fields the transformer reads. \<^verbatim>\<open>gradientEnabled\<close> is
  \<open>None\<close> when the setting is absent (\<^verbatim>\<open>undefined\<close>, which is falsy). Both records
  are extensible, for the fields the transformer does not read.
\<close>

record viewSettings =
  gradientEnabled :: "bool option"

record 'v ctx =
  viewSettings :: "'v viewSettings_scheme"
  content :: string

definition class_append :: "string \<Rightarrow> string \<Rightarrow> string" where
  \<comment> \<open>The branch on \<^verbatim>\<open>classRegex.test(attrs)\<close>, which both variants share; \<open>added\<close>
     is \<^verbatim>\<open>lineClass\<close> in the wrapper variant and \<^verbatim>\<open>gradientClass\<close> in the
     classes-only variant.\<close>
  "class_append added attrs =
     (if rx_test True classRegex attrs then
        js_replace True classRegex
          (\<lambda>m caps. ''class=\"'' @ caps ! 0 @ '' '' @ added @ ''\"'') attrs
      else attrs @ '' class=\"'' @ added @ ''\"'')"

definition hasClip :: "string \<Rightarrow> bool" where
  "hasClip inner = rx_test False clipRx inner"

text \<open>
  The two versions of \<^verbatim>\<open>gradientTransformer\<close> in \<^verbatim>\<open>gradient.ts\<close>: the first
  wraps the inner markup in a clip span (\<open>wrapper_callback\<close>, \<open>transform_wrapper\<close>), the
  second adds classes only (\<open>classes_callback\<close>, \<open>transform_classes\<close>). The state of the
  replacement function is \<^verbatim>\<open>paragraphIndex\<close>, a natural number (the counter stays far
  below \<open>2^53\<close>, where JavaScript numbers are exact); the function receives the matched
  text and the captures, \<^verbatim>\<open>attrs\<close> first and \<^verbatim>\<open>inner\<close> second. The paragraph
  pattern has two groups, and every match has exactly these two captures (lemma
  \<open>p_results_shape\<close>); a match of the class pattern has one (lemma \<open>c_search_parts\<close>).
  \<^verbatim>\<open>transform\<close> is an \<^verbatim>\<open>async\<close> function that awaits nothing: the model is the
  value its promise resolves to.
\<close>

definition wrapper_callback :: "nat \<Rightarrow> string \<Rightarrow> string list \<Rightarrow> string \<times> nat" where
  "wrapper_callback paragraphIndex whole caps =
     (let attrs = caps ! 0; inner = caps ! 1;
          lineClass = ''g-line'';
          shadeClass = ''g-l'' @ number_toString (paragraphIndex mod 4);
          paragraphIndex' = paragraphIndex + 1;
          attrs' = class_append lineClass attrs;
          wrappedInner =
            (if hasClip inner then inner
             else ''<span class=\"g-clip '' @ shadeClass @ ''\">'' @ inner @ ''</span>'')
      in (''<p'' @ attrs' @ ''>'' @ wrappedInner @ ''</p>'', paragraphIndex'))"

definition classes_callback :: "nat \<Rightarrow> string \<Rightarrow> string list \<Rightarrow> string \<times> nat" where
  "classes_callback paragraphIndex whole caps =
     (let attrs = caps ! 0; inner = caps ! 1;
          gradientClass = ''g-line g-l'' @ number_toString (paragraphIndex mod 4);
          paragraphIndex' = paragraphIndex + 1;
          attrs' = class_append gradientClass attrs
      in (''<p'' @ attrs' @ ''>'' @ inner @ ''</p>'', paragraphIndex'))"

definition transform_wrapper :: "('v, 'c) ctx_scheme \<Rightarrow> string" where
  "transform_wrapper c =
     (if gradientEnabled (viewSettings c) \<noteq> Some True then content c
      else fst (js_replace_all True paragraphRx wrapper_callback 0 (content c)))"

definition transform_classes :: "('v, 'c) ctx_scheme \<Rightarrow> string" where
  "transform_classes c =
     (if gradientEnabled (viewSettings c) \<noteq> Some True then content c
      else fst (js_replace_all True paragraphRx classes_callback 0 (content c)))"

definition flag_on :: "string \<Rightarrow> unit ctx" where
  \<comment> \<open>A context with the feature switched on.\<close>
  "flag_on s = \<lparr> viewSettings = \<lparr> gradientEnabled = Some True \<rparr>, content = s \<rparr>"

section \<open>The paragraph pattern, step by step\<close>

text \<open>
  Auxiliary functions for the proofs: what the matcher computes on the paragraph pattern,
  written as direct recursions. \<open>starts_with\<close> is a run of literal characters,
  \<open>find_close\<close> is the lazy \<^verbatim>\<open>([\s\S]*?)<\/p>\<close> (the text up to the first
  closing tag, and the text after that tag), and \<open>p_head\<close> is a match of the whole
  pattern at the head of the string: the two captures and the text after the match.
  Lemma \<open>p_match\<close> below proves that the matcher computes \<open>p_head\<close>.
\<close>

fun starts_with :: "bool \<Rightarrow> string \<Rightarrow> string \<Rightarrow> bool" where
  "starts_with ic [] s = True"
| "starts_with ic (a # as) [] = False"
| "starts_with ic (a # as) (c # cs) = (atom_ok ic (Lit a) c \<and> starts_with ic as cs)"

fun find_close :: "string \<Rightarrow> (string \<times> string) option" where
  "find_close [] = None"
| "find_close (c # cs) =
     (if starts_with True ''</p>'' (c # cs) then Some ([], drop 3 cs)
      else map_option (\<lambda>(inner, rest). (c # inner, rest)) (find_close cs))"

definition p_head :: "string \<Rightarrow> (string \<times> string \<times> string) option" where
  "p_head s =
     (if starts_with True ''<p'' s then
        (case dropWhile (\<lambda>c. c \<noteq> CHR ''>'') (drop 2 s) of
           [] \<Rightarrow> None
         | g # u \<Rightarrow>
             map_option (\<lambda>(inner, rest). (takeWhile (\<lambda>c. c \<noteq> CHR ''>'') (drop 2 s), inner, rest))
               (find_close u))
      else None)"


text \<open>
  The shape of a match of the paragraph pattern: an opening \<^verbatim>\<open><p\<close> in either
  case, the first capture up to the first \<^verbatim>\<open>>\<close>, the second capture, which holds no
  closing tag, and a closing \<^verbatim>\<open></p>\<close> in either case.
\<close>

definition block_shape :: "string \<Rightarrow> string list \<Rightarrow> bool" where
  "block_shape whole caps \<longleftrightarrow>
     (\<exists>op attrs inner cl.
        caps = [attrs, inner] \<and> whole = op @ attrs @ ''>'' @ inner @ cl \<and>
        map canonicalize op = ''<P'' \<and> map canonicalize cl = ''</P>'' \<and>
        CHR ''>'' \<notin> set attrs \<and>
        (\<forall>a cl' b. inner = a @ cl' @ b \<longrightarrow> map canonicalize cl' \<noteq> ''</P>''))"

text \<open>
  \<open>c_head\<close> is a match of \<open>classRegex\<close> at the head of the string: the capture and the
  text after the match (lemma \<open>c_match\<close>).
\<close>

definition c_head :: "string \<Rightarrow> (string \<times> string) option" where
  "c_head s =
     (if starts_with True ''class=\"'' s then
        (case dropWhile (\<lambda>c. c \<noteq> CHR 0x22) (drop 7 s) of
           [] \<Rightarrow> None
         | q # u \<Rightarrow> Some (takeWhile (\<lambda>c. c \<noteq> CHR 0x22) (drop 7 s), u))
      else None)"

text \<open>
  \<open>closable s\<close>: the text holds a \<^verbatim>\<open>>\<close> with a closing tag somewhere after it. The
  paragraph pattern matches nowhere in a text that is not closable.
\<close>

definition closable :: "string \<Rightarrow> bool" where
  "closable s \<longleftrightarrow> (\<exists>a u. s = a @ CHR ''>'' # u \<and> find_close u \<noteq> None)"

definition wrappedInner :: "nat \<Rightarrow> string \<Rightarrow> string" where
  \<comment> \<open>\<^verbatim>\<open>wrappedInner\<close> of the wrapper version, for the value of \<^verbatim>\<open>paragraphIndex\<close>
     at the start of the call.\<close>
  "wrappedInner paragraphIndex inner =
     (if hasClip inner then inner
      else ''<span class=\"g-clip g-l'' @ number_toString (paragraphIndex mod 4) @ ''\">'' @
        inner @ ''</span>'')"

text \<open>
  \<open>holds_text l s\<close>: the text \<open>s\<close> holds the characters of \<open>l\<close> somewhere, letters in
  either case.
\<close>

fun holds_text :: "string \<Rightarrow> string \<Rightarrow> bool" where
  "holds_text l [] = False"
| "holds_text l (c # cs) = (starts_with True l (c # cs) \<or> holds_text l cs)"

text \<open>
  The variable \<^verbatim>\<open>paragraphIndex\<close> as a cell of a store. \<^verbatim>\<open>let paragraphIndex = 0\<close>
  creates a new binding at every call of \<^verbatim>\<open>transform\<close>, and the replacement function
  is a closure over this binding: it reads the variable and writes it back incremented.
  A store is the list of the mutable cells that exist; whatever the transformer or an
  earlier call could have kept is a cell of the store the call starts in. A call
  allocates the next cell, with 0 in it, and its replacement function works on that cell.
\<close>

type_synonym store = "nat list"

definition closure_callback ::
  "(nat \<Rightarrow> string \<Rightarrow> string list \<Rightarrow> string \<times> nat) \<Rightarrow> nat \<Rightarrow> store \<Rightarrow> string \<Rightarrow> string list \<Rightarrow>
     string \<times> store"
where
  "closure_callback body a st whole caps =
     (case body (st ! a) whole caps of
        (replacement, paragraphIndex') \<Rightarrow> (replacement, st[a := paragraphIndex']))"

definition transform_wrapper_call :: "store \<Rightarrow> ('v, 'c) ctx_scheme \<Rightarrow> string \<times> store" where
  "transform_wrapper_call st c =
     (if gradientEnabled (viewSettings c) \<noteq> Some True then (content c, st)
      else js_replace_all True paragraphRx (closure_callback wrapper_callback (length st))
             (st @ [0]) (content c))"

definition transform_classes_call :: "store \<Rightarrow> ('v, 'c) ctx_scheme \<Rightarrow> string \<times> store" where
  "transform_classes_call st c =
     (if gradientEnabled (viewSettings c) \<noteq> Some True then (content c, st)
      else js_replace_all True paragraphRx (closure_callback classes_callback (length st))
             (st @ [0]) (content c))"

declare rx_search.simps [simp del]

section \<open>Lemmas on the matcher\<close>

lemma canon_lt [simp]: "canonicalize c = CHR ''<'' \<longleftrightarrow> c = CHR ''<''"
  by (auto simp: canonicalize_def)
lemma canon_lt' [simp]: "CHR ''<'' = canonicalize c \<longleftrightarrow> c = CHR ''<''"
  by (auto simp: canonicalize_def)
lemma canon_gt [simp]: "CHR ''>'' = canonicalize c \<longleftrightarrow> c = CHR ''>''"
  by (auto simp: canonicalize_def)
lemma canon_gt' [simp]: "canonicalize c = CHR ''>'' \<longleftrightarrow> c = CHR ''>''"
  by (auto simp: canonicalize_def)
lemma canon_P [simp]: "CHR ''P'' = canonicalize c \<longleftrightarrow> c = CHR ''p'' \<or> c = CHR ''P''"
  by (auto simp: canonicalize_def)
lemma canon_lit [simp]:
  "canonicalize CHR ''<'' = CHR ''<''" "canonicalize CHR ''>'' = CHR ''>''"
  "canonicalize CHR ''/'' = CHR ''/''" "canonicalize CHR ''p'' = CHR ''P''"
  by (simp_all add: canonicalize_def)

lemma first_some_greedy:
  assumes "\<And>k. k < m \<Longrightarrow> f k = None"
  shows "first_some f (rev [0..<Suc m]) = f m"
proof -
  have "first_some f (rev [0..<m]) = None" using assms
    by (induction m) auto
  then show ?thesis by (simp split: option.splits)
qed

lemma first_some_map: "first_some f (map g xs) = first_some (\<lambda>x. f (g x)) xs"
  by (induction xs) (auto split: option.splits)

lemma first_some_upt_Suc:
  "first_some f [0..<Suc (Suc n)] =
     (case f 0 of Some y \<Rightarrow> Some y | None \<Rightarrow> first_some (\<lambda>k. f (Suc k)) [0..<Suc n])"
proof -
  have "[0..<Suc (Suc n)] = 0 # map Suc [0..<Suc n]"
    by (metis map_Suc_upt upt_conv_Cons zero_less_Suc)
  then show ?thesis by (simp add: first_some_map del: upt_Suc split: option.splits)
qed

lemma prev_after_Cons: "prev_after (Some c) (take n cs) = prev_after prev (take (Suc n) (c # cs))"
  by (simp add: prev_after_def)

lemma rx_match_lits:
  "rx_match ic (lits l @ ns) prev s caps =
     (if starts_with ic l s
      then rx_match ic ns (prev_after prev (take (length l) s)) (drop (length l) s) caps
      else None)"
proof (induction l arbitrary: prev s)
  case Nil
  then show ?case by (simp add: lits_def prev_after_def)
next
  case (Cons a l)
  show ?case
  proof (cases s)
    case Nil
    then show ?thesis by (simp add: lits_def)
  next
    case (Cons c cs)
    with Cons.IH [of "Some c" cs] show ?thesis
      by (simp add: lits_def prev_after_def)
  qed
qed

lemma rx_match_close:
  "rx_match True (lits ''</p>'') prev s caps =
     (if starts_with True ''</p>'' s then Some (caps, drop 4 s) else None)"
  using rx_match_lits [of True "''</p>''" "[]" prev s caps] by (simp add: eval_nat_numeral)

lemma lazy_find:
  "first_some (\<lambda>k. rx_match True (lits ''</p>'') (pv k) (drop k u) (caps @ [acc @ take k u]))
       [0..<Suc (length u)] =
     map_option (\<lambda>(inner, rest). (caps @ [acc @ inner], rest)) (find_close u)"
proof (induction u arbitrary: acc pv)
  case Nil
  then show ?case by (simp add: rx_match_close)
next
  case (Cons c cs)
  have "first_some (\<lambda>k. rx_match True (lits ''</p>'') (pv k) (drop k (c # cs))
            (caps @ [acc @ take k (c # cs)])) [0..<Suc (length (c # cs))] =
        (case rx_match True (lits ''</p>'') (pv 0) (c # cs) (caps @ [acc]) of
           Some y \<Rightarrow> Some y
         | None \<Rightarrow> first_some (\<lambda>k. rx_match True (lits ''</p>'') (pv (Suc k)) (drop k cs)
              (caps @ [(acc @ [c]) @ take k cs])) [0..<Suc (length cs)])"
    by (simp add: first_some_upt_Suc del: upt_Suc split: option.splits)
  also have "\<dots> = map_option (\<lambda>(inner, rest). (caps @ [acc @ inner], rest)) (find_close (c # cs))"
    unfolding Cons.IH [of "\<lambda>k. pv (Suc k)" "acc @ [c]"]
    by (cases "find_close cs") (auto simp: rx_match_close simp del: starts_with.simps)
  finally show ?case .
qed

lemma atom_not_gt [simp]: "atom_ok True (NoneOf ''>'') c \<longleftrightarrow> c \<noteq> CHR ''>''"
  by simp

lemma starts_gt [simp]: "starts_with True ''>'' s \<longleftrightarrow> (\<exists>u. s = CHR ''>'' # u)"
  by (cases s) auto

lemma drop_takeWhile_not:
  assumes "k < length (takeWhile P t)"
  shows "\<exists>c u. drop k t = c # u \<and> P c"
proof -
  from assms have k: "k < length t"
    by (meson length_takeWhile_le less_le_trans)
  have "P (t ! k)"
    using assms by (metis nth_mem set_takeWhileD takeWhile_nth)
  with k show ?thesis
    by (metis Cons_nth_drop_Suc)
qed

lemma greedy_run:
  "first_some (\<lambda>k. rx_match True (lits ''>'' @ ns) (pv k) (drop k t) (cf k))
       (rev [0..<Suc (length (takeWhile (\<lambda>c. c \<noteq> CHR ''>'') t))]) =
     rx_match True (lits ''>'' @ ns) (pv (length (takeWhile (\<lambda>c. c \<noteq> CHR ''>'') t)))
       (dropWhile (\<lambda>c. c \<noteq> CHR ''>'') t) (cf (length (takeWhile (\<lambda>c. c \<noteq> CHR ''>'') t)))"
proof -
  let ?P = "\<lambda>c. c \<noteq> CHR ''>''"
  let ?m = "length (takeWhile ?P t)"
  let ?f = "\<lambda>k. rx_match True (lits ''>'' @ ns) (pv k) (drop k t) (cf k)"
  have "?f k = None" if "k < ?m" for k
  proof -
    from drop_takeWhile_not [OF that] obtain c u where "drop k t = c # u" "c \<noteq> CHR ''>''"
      by blast
    then show ?thesis by (simp add: rx_match_lits)
  qed
  then have "first_some ?f (rev [0..<Suc ?m]) = ?f ?m"
    by (rule first_some_greedy)
  moreover have "drop ?m t = dropWhile ?P t"
    by (rule dropWhile_eq_drop [symmetric])
  ultimately show ?thesis by simp
qed

lemma rx_match_attrs:
  "rx_match True (CapRep Greedy 0 (NoneOf ''>'') # lits ''>'' @ ns) pv t [] =
     (case dropWhile (\<lambda>c. c \<noteq> CHR ''>'') t of
        [] \<Rightarrow> None
      | g # u \<Rightarrow> rx_match True ns (Some CHR ''>'') u [takeWhile (\<lambda>c. c \<noteq> CHR ''>'') t])"
proof -
  let ?P = "\<lambda>c. c \<noteq> CHR ''>''"
  have "atom_ok True (NoneOf ''>'') = ?P"
    by (rule ext) simp
  then have b: "attempts Greedy 0 (length (takeWhile (atom_ok True (NoneOf ''>'')) t)) =
        rev [0..<Suc (length (takeWhile ?P t))]"
    by (simp add: attempts_def)
  have t: "take (length (takeWhile ?P t)) t = takeWhile ?P t"
    by (rule takeWhile_eq_take [symmetric])
  have m: "rx_match True (CapRep Greedy 0 (NoneOf ''>'') # lits ''>'' @ ns) pv t [] =
      rx_match True (lits ''>'' @ ns) (prev_after pv (takeWhile ?P t)) (dropWhile ?P t)
        [takeWhile ?P t]"
    using greedy_run [of ns "\<lambda>k. prev_after pv (take k t)" t "\<lambda>k. [take k t]"]
    by (simp add: b t del: upt_Suc atom_ok.simps)
  show ?thesis
  proof (cases "dropWhile ?P t")
    case Nil
    then show ?thesis unfolding m
      by (simp add: rx_match_lits del: dropWhile_eq_Nil_conv)
  next
    case (Cons g u)
    with hd_dropWhile [of ?P t] have "g = CHR ''>''" by auto
    with Cons show ?thesis unfolding m by (simp add: rx_match_lits prev_after_def)
  qed
qed

lemma rx_match_inner:
  "rx_match True (CapRep Lazy 0 AnyChar # lits ''</p>'') pv u caps =
     map_option (\<lambda>(inner, rest). (caps @ [inner], rest)) (find_close u)"
proof -
  have a: "attempts Lazy 0 (length (takeWhile (atom_ok True AnyChar) u)) = [0..<Suc (length u)]"
    by (simp add: attempts_def takeWhile_eq_all_conv [THEN iffD2])
  show ?thesis
    using lazy_find [of "\<lambda>k. prev_after pv (take k u)" u caps "[]"]
    by (simp add: a del: upt_Suc atom_ok.simps)
qed

lemma p_match_unfold:
  "rx_match True paragraphRx prev s [] =
      (if starts_with True ''<p'' s
       then rx_match True (CapRep Greedy 0 (NoneOf ''>'') # lits ''>'' @
              (CapRep Lazy 0 AnyChar # lits ''</p>'')) (prev_after prev (take 2 s)) (drop 2 s) []
       else None)"
proof -
  have eq: "paragraphRx = lits ''<p'' @ (CapRep Greedy 0 (NoneOf ''>'') # lits ''>'' @
              (CapRep Lazy 0 AnyChar # lits ''</p>''))"
    by (simp add: paragraphRx_def)
  show ?thesis
    unfolding eq rx_match_lits by (simp add: eval_nat_numeral)
qed

lemma p_match:
  "rx_match True paragraphRx prev s [] =
     map_option (\<lambda>(attrs, inner, rest). ([attrs, inner], rest)) (p_head s)"
proof (cases "starts_with True ''<p'' s")
  case False
  then show ?thesis by (simp add: p_match_unfold p_head_def)
next
  case True
  show ?thesis
  proof (cases "dropWhile (\<lambda>c. c \<noteq> CHR ''>'') (drop 2 s)")
    case Nil
    with True show ?thesis
      unfolding p_match_unfold rx_match_attrs p_head_def
      by (simp del: dropWhile_eq_Nil_conv)
  next
    case (Cons g u)
    with True show ?thesis
      unfolding p_match_unfold rx_match_attrs rx_match_inner p_head_def
      by (cases "find_close u") auto
  qed
qed

lemma starts_with_append: "starts_with ic l s \<Longrightarrow> starts_with ic l (s @ z)"
  by (induction ic l s rule: starts_with.induct) auto

lemma starts_close_lt:
  assumes "\<not> starts_with True ''</p>'' (c # i)"
  shows "\<not> starts_with True ''</p>'' (c # i @ CHR ''<'' # y)"
proof (cases i)
  case Nil
  then show ?thesis by simp
next
  case i: (Cons a i2)
  show ?thesis
  proof (cases i2)
    case Nil
    with i show ?thesis by simp
  next
    case i2: (Cons b i3)
    show ?thesis
    proof (cases i3)
      case Nil
      with i i2 show ?thesis by simp
    next
      case (Cons d i4)
      with i i2 assms show ?thesis by simp
    qed
  qed
qed

lemma starts_with_length: "starts_with ic l s \<Longrightarrow> length l \<le> length s"
  by (induction ic l s rule: starts_with.induct) auto

lemma starts_with_append_iff:
  "length l \<le> length s \<Longrightarrow> starts_with ic l (s @ z) = starts_with ic l s"
  by (induction ic l s rule: starts_with.induct) auto

lemma find_close_length: "find_close s = Some (i, r) \<Longrightarrow> length i + length r + 4 = length s"
proof (induction s arbitrary: i)
  case Nil
  then show ?case by simp
next
  case (Cons c cs)
  show ?case
  proof (cases "starts_with True ''</p>'' (c # cs)")
    case True
    with Cons.prems starts_with_length [OF True] show ?thesis
      by (auto simp del: starts_with.simps)
  next
    case False
    with Cons.prems obtain i' where i': "find_close cs = Some (i', r)" "i = c # i'"
      by (auto simp del: starts_with.simps)
    with Cons.IH [OF i'(1)] show ?thesis by simp
  qed
qed

lemma find_close_shape:
  "find_close s = Some (i, r) \<Longrightarrow>
     \<exists>cl. s = i @ cl @ r \<and> length cl = 4 \<and> starts_with True ''</p>'' cl"
proof (induction s arbitrary: i)
  case Nil
  then show ?case by simp
next
  case (Cons c cs)
  show ?case
  proof (cases "starts_with True ''</p>'' (c # cs)")
    case True
    from starts_with_length [OF True] have len: "4 \<le> length (c # cs)" by simp
    then have "length ''</p>'' \<le> length (take 4 (c # cs))" by simp
    from starts_with_append_iff [OF this, of True "drop 4 (c # cs)"] True
    have "starts_with True ''</p>'' (take 4 (c # cs))" by simp
    moreover from True Cons.prems have "i = []" "r = drop 4 (c # cs)"
      by (auto simp del: starts_with.simps simp: eval_nat_numeral)
    ultimately show ?thesis using len
      by (intro exI [of _ "take 4 (c # cs)"]) simp
  next
    case False
    with Cons.prems obtain i' where i': "find_close cs = Some (i', r)" "i = c # i'"
      by (auto simp del: starts_with.simps)
    from Cons.IH [OF i'(1)] i'(2) show ?thesis by auto
  qed
qed

lemma find_close_append:
  "find_close s = Some (i, r) \<Longrightarrow> find_close (s @ z) = Some (i, r @ z)"
proof (induction s arbitrary: i)
  case Nil
  then show ?case by simp
next
  case (Cons c cs)
  from find_close_length [OF Cons.prems] have len: "length ''</p>'' \<le> length (c # cs)"
    by simp
  show ?case
  proof (cases "starts_with True ''</p>'' (c # cs)")
    case True
    with Cons.prems starts_with_append_iff [OF len, of True z] len show ?thesis
      by (auto simp del: starts_with.simps)
  next
    case False
    with Cons.prems obtain i' where i': "find_close cs = Some (i', r)" "i = c # i'"
      by (auto simp del: starts_with.simps)
    from False starts_with_append_iff [OF len, of True z]
    have "\<not> starts_with True ''</p>'' (c # cs @ z)" by simp
    with Cons.IH [OF i'(1)] i' show ?thesis by (simp del: starts_with.simps)
  qed
qed

lemma find_close_inner_None:
  "find_close u = Some (inner, rest) \<Longrightarrow> find_close inner = None"
proof (induction u arbitrary: inner)
  case Nil
  then show ?case by simp
next
  case (Cons c cs)
  show ?case
  proof (cases "starts_with True ''</p>'' (c # cs)")
    case True
    with Cons.prems show ?thesis by (auto simp del: starts_with.simps)
  next
    case False
    with Cons.prems obtain i' where i': "find_close cs = Some (i', rest)" "inner = c # i'"
      by (auto simp del: starts_with.simps)
    have "\<not> starts_with True ''</p>'' (c # i')"
    proof
      assume a: "starts_with True ''</p>'' (c # i')"
      from starts_with_length [OF a] have "length ''</p>'' \<le> length (c # i')" .
      from starts_with_append_iff [OF this, of True "drop (length i') cs"] a
      have "starts_with True ''</p>'' (c # i' @ drop (length i') cs)" by simp
      moreover have "i' @ drop (length i') cs = cs"
        using find_close_shape [OF i'(1)] by auto
      ultimately show False using False by simp
    qed
    with Cons.IH [OF i'(1)] i' show ?thesis by (simp del: starts_with.simps)
  qed
qed

lemma find_close_lt:
  "find_close inner = None \<Longrightarrow>
     find_close (inner @ CHR ''<'' # y) =
       map_option (\<lambda>(i, r). (inner @ i, r)) (find_close (CHR ''<'' # y))"
proof (induction inner)
  case Nil
  then show ?case by (simp add: option.map_ident case_prod_beta)
next
  case (Cons c i)
  from Cons.prems have n: "\<not> starts_with True ''</p>'' (c # i)" "find_close i = None"
    by (auto simp del: starts_with.simps split: if_splits)
  from starts_close_lt [OF n(1)] Cons.IH [OF n(2)] show ?case
    by (simp del: starts_with.simps add: option.map_comp comp_def case_prod_beta)
qed

lemma p_head_Nil [simp]: "p_head [] = None"
  by (simp add: p_head_def)

lemma starts_open_take:
  assumes "starts_with True ''<p'' s"
  shows "starts_with True ''<p'' (take 2 s) \<and> length (take 2 s) = 2"
proof -
  from starts_with_length [OF assms] have len: "2 \<le> length s" by simp
  then have "length ''<p'' \<le> length (take 2 s)" by simp
  from starts_with_append_iff [OF this, of True "drop 2 s"] assms len show ?thesis by simp
qed

lemma p_head_shape:
  assumes "p_head s = Some (attrs, inner, rest)"
  shows "\<exists>op cl. s = op @ attrs @ CHR ''>'' # inner @ cl @ rest \<and>
           length op = 2 \<and> starts_with True ''<p'' op \<and>
           length cl = 4 \<and> starts_with True ''</p>'' cl \<and>
           CHR ''>'' \<notin> set attrs \<and> find_close inner = None"
proof -
  let ?P = "\<lambda>c. c \<noteq> CHR ''>''"
  from assms have st: "starts_with True ''<p'' s"
    by (auto simp: p_head_def split: if_splits)
  with assms obtain g u where gu: "dropWhile ?P (drop 2 s) = g # u"
    and fc: "find_close u = Some (inner, rest)" and at: "attrs = takeWhile ?P (drop 2 s)"
    by (auto simp: p_head_def split: list.splits simp del: dropWhile_eq_Nil_conv)
  from gu hd_dropWhile [of ?P "drop 2 s"] have g: "g = CHR ''>''" by auto
  from find_close_shape [OF fc] obtain cl where
    cl: "u = inner @ cl @ rest" "length cl = 4" "starts_with True ''</p>'' cl" by blast
  have "s = take 2 s @ drop 2 s" by simp
  also have "drop 2 s = attrs @ g # u"
    using takeWhile_dropWhile_id [of ?P "drop 2 s"] gu at by simp
  finally have "s = take 2 s @ attrs @ CHR ''>'' # inner @ cl @ rest"
    using g cl(1) by simp
  moreover have "CHR ''>'' \<notin> set attrs"
    using at by (auto dest: set_takeWhileD)
  ultimately show ?thesis
    using starts_open_take [OF st] cl(2,3) find_close_inner_None [OF fc] by blast
qed

lemma p_head_intro:
  assumes "starts_with True ''<p'' op" "length op = 2" "CHR ''>'' \<notin> set attrs"
    and "find_close u = Some (inner, rest)"
  shows "p_head (op @ attrs @ CHR ''>'' # u) = Some (attrs, inner, rest)"
proof -
  let ?P = "\<lambda>c. c \<noteq> CHR ''>''"
  from assms(1,2) have "starts_with True ''<p'' (op @ attrs @ CHR ''>'' # u)"
    by (simp add: starts_with_append_iff)
  moreover have "drop 2 (op @ attrs @ CHR ''>'' # u) = attrs @ CHR ''>'' # u"
    using assms(2) by simp
  moreover have "takeWhile ?P (attrs @ CHR ''>'' # u) = attrs"
    using assms(3) by (induction attrs) auto
  moreover have "dropWhile ?P (attrs @ CHR ''>'' # u) = CHR ''>'' # u"
    using assms(3) by (induction attrs) auto
  ultimately show ?thesis
    using assms(4) by (simp add: p_head_def del: starts_with.simps)
qed

lemma p_head_rest_length:
  "p_head s = Some (attrs, inner, rest) \<Longrightarrow> length rest + length attrs + length inner + 7 = length s"
  using p_head_shape [of s attrs inner rest] by auto

lemma p_head_whole:
  assumes "p_head s = Some (attrs, inner, rest)"
  shows "take (length s - length rest) s @ rest = s"
    and "drop (length s - length rest) s = rest"
    and "take (length s - length rest) s \<noteq> []"
proof -
  from p_head_shape [OF assms] obtain w where w: "s = w @ rest" "w \<noteq> []"
    by (metis append.assoc append_Cons append_is_Nil_conv list.distinct(1))
  then show "take (length s - length rest) s @ rest = s"
    "drop (length s - length rest) s = rest" "take (length s - length rest) s \<noteq> []"
    by simp_all
qed

lemma p_induct [case_names Nil Skip Match]:
  assumes "P []"
    and "\<And>c cs. p_head (c # cs) = None \<Longrightarrow> P cs \<Longrightarrow> P (c # cs)"
    and "\<And>c cs attrs inner rest. p_head (c # cs) = Some (attrs, inner, rest) \<Longrightarrow> P rest \<Longrightarrow> P (c # cs)"
  shows "P s"
proof (induction s rule: length_induct)
  case (1 s)
  show ?case
  proof (cases s)
    case Nil
    with assms(1) show ?thesis by simp
  next
    case (Cons c cs)
    show ?thesis
    proof (cases "p_head (c # cs)")
      case None
      with assms(2) 1 Cons show ?thesis by simp
    next
      case (Some t)
      obtain attrs inner rest where t: "t = (attrs, inner, rest)" by (cases t)
      from p_head_rest_length [of "c # cs" attrs inner rest] Some t
      have "length rest < length s" using Cons by simp
      with 1 have "P rest" by blast
      with assms(3) Some t Cons show ?thesis by simp
    qed
  qed
qed

lemma p_search_Nil [simp]: "rx_search True paragraphRx prev [] = None"
  by (simp add: p_match rx_search.simps)

lemma p_search_Some:
  "p_head (c # cs) = Some (attrs, inner, rest) \<Longrightarrow>
     rx_search True paragraphRx prev (c # cs) =
       Some ([], take (Suc (length cs) - length rest) (c # cs), [attrs, inner])"
  by (simp add: p_match rx_search.simps)

lemma p_search_None:
  "p_head (c # cs) = None \<Longrightarrow>
     rx_search True paragraphRx prev (c # cs) =
       map_option (\<lambda>(pre, whole, caps). (c # pre, whole, caps))
         (rx_search True paragraphRx (Some c) cs)"
  by (simp add: p_match rx_search.simps)

lemma p_search_whole:
  "rx_search True paragraphRx prev s = Some (pre, whole, caps) \<Longrightarrow> whole \<noteq> []"
proof (induction s arbitrary: prev pre)
  case Nil
  then show ?case by simp
next
  case (Cons c cs)
  show ?case
  proof (cases "p_head (c # cs)")
    case None
    with Cons.prems Cons.IH show ?thesis
      by (auto simp: p_search_None)
  next
    case (Some t)
    obtain attrs inner rest where t: "t = (attrs, inner, rest)" by (cases t)
    from Some t have "p_head (c # cs) = Some (attrs, inner, rest)" by simp
    from p_head_whole(3) [OF this] p_search_Some [OF this, of prev] Cons.prems show ?thesis
      by auto
  qed
qed

lemma p_results_Nil [simp]: "rx_results True paragraphRx prev [] = ([], [])"
  by (simp add: rx_results.simps)

lemma p_results_Match:
  assumes "p_head (c # cs) = Some (attrs, inner, rest)"
  shows "rx_results True paragraphRx prev (c # cs) =
     (case rx_results True paragraphRx
             (prev_after prev (take (Suc (length cs) - length rest) (c # cs))) rest of
        (segs, tail) \<Rightarrow>
          (([], take (Suc (length cs) - length rest) (c # cs), [attrs, inner]) # segs, tail))"
proof -
  from p_head_whole [OF assms]
  have "drop (Suc (length cs) - length rest) (c # cs) = rest"
    "take (Suc (length cs) - length rest) (c # cs) \<noteq> []" by simp_all
  moreover from p_head_rest_length [OF assms] have "length rest \<le> length cs" by simp
  ultimately show ?thesis
    by (subst rx_results.simps) (simp add: p_search_Some [OF assms] Suc_diff_le)
qed

lemma p_results_Skip:
  assumes "p_head (c # cs) = None"
  shows "rx_results True paragraphRx prev (c # cs) =
     (case rx_results True paragraphRx (Some c) cs of
        ([], tail) \<Rightarrow> ([], c # tail)
      | ((pre, m) # segs, tail) \<Rightarrow> ((c # pre, m) # segs, tail))"
proof (cases "rx_search True paragraphRx (Some c) cs")
  case None
  then show ?thesis
    by (subst rx_results.simps, subst (2) rx_results.simps)
      (simp add: p_search_None [OF assms])
next
  case (Some t)
  obtain pre whole caps where t: "t = (pre, whole, caps)" by (cases t)
  from p_search_whole Some t have w: "whole \<noteq> []" by blast
  then have "prev_after prev (c # pre @ whole) = prev_after (Some c) (pre @ whole)"
    by (simp add: prev_after_def)
  with Some t w show ?thesis
    by (subst rx_results.simps, subst (2) rx_results.simps)
      (simp add: p_search_None [OF assms] split: prod.splits)
qed

lemma p_replace_Nil [simp]: "rx_replace_from True paragraphRx f k prev [] = ([], k)"
  by (simp add: rx_replace_from_def)

lemma p_replace_Match:
  assumes "p_head (c # cs) = Some (attrs, inner, rest)"
  shows "rx_replace_from True paragraphRx f k prev (c # cs) =
     (case f k (take (Suc (length cs) - length rest) (c # cs)) [attrs, inner] of
        (rep, k') \<Rightarrow>
          (case rx_replace_from True paragraphRx f k'
                  (prev_after prev (take (Suc (length cs) - length rest) (c # cs))) rest of
             (out, k'') \<Rightarrow> (rep @ out, k'')))"
  unfolding rx_replace_from_def p_results_Match [OF assms]
  by (simp split: prod.splits)

lemma p_replace_Skip:
  assumes "p_head (c # cs) = None"
  shows "rx_replace_from True paragraphRx f k prev (c # cs) =
     (case rx_replace_from True paragraphRx f k (Some c) cs of (out, k') \<Rightarrow> (c # out, k'))"
  unfolding rx_replace_from_def p_results_Skip [OF assms]
  by (auto split: prod.splits list.splits)

lemma p_results_concat:
  "rx_results True paragraphRx prev s = (segs, tail) \<Longrightarrow>
     concat (map (\<lambda>(pre, whole, caps). pre @ whole) segs) @ tail = s"
proof (induction s arbitrary: prev segs tail rule: p_induct)
  case Nil
  then show ?case by simp
next
  case (Skip c cs)
  obtain segs' tail' where r: "rx_results True paragraphRx (Some c) cs = (segs', tail')"
    by (cases "rx_results True paragraphRx (Some c) cs")
  from Skip.IH [OF r] Skip.prems r show ?case
    unfolding p_results_Skip [OF Skip.hyps]
    by (auto split: list.splits)
next
  case (Match c cs attrs inner rest)
  let ?w = "take (Suc (length cs) - length rest) (c # cs)"
  obtain segs' tail' where r: "rx_results True paragraphRx (prev_after prev ?w) rest = (segs', tail')"
    by (cases "rx_results True paragraphRx (prev_after prev ?w) rest")
  from p_head_whole(1) [OF Match.hyps] have "?w @ rest = c # cs" by simp
  with Match.IH [OF r] Match.prems r show ?case
    unfolding p_results_Match [OF Match.hyps]
    by auto
qed

lemma rx_build_enumerate:
  assumes "\<And>k whole caps. snd (f k whole caps) = Suc k"
  shows "rx_build f k segs =
     (concat (map (\<lambda>(i, pre, whole, caps). pre @ fst (f i whole caps)) (enumerate k segs)),
      k + length segs)"
proof (induction segs arbitrary: k)
  case Nil
  then show ?case by simp
next
  case (Cons seg segs)
  obtain pre whole caps where seg: "seg = (pre, whole, caps)" by (cases seg)
  obtain rep k' where f: "f k whole caps = (rep, k')" by (cases "f k whole caps")
  with assms [of k whole caps] have "k' = Suc k" by simp
  with Cons.IH [of "Suc k"] f seg show ?case by simp
qed

lemma rx_build_append:
  "rx_build f k (segs1 @ segs2) =
     (case rx_build f k segs1 of
        (out1, k1) \<Rightarrow> (case rx_build f k1 segs2 of (out2, k2) \<Rightarrow> (out1 @ out2, k2)))"
proof (induction segs1 arbitrary: k)
  case Nil
  then show ?case by (simp split: prod.splits)
next
  case (Cons seg segs)
  obtain pre whole caps where seg: "seg = (pre, whole, caps)" by (cases seg)
  with Cons.IH show ?case by (simp split: prod.splits)
qed

lemma number_toString_mod4: "number_toString (k mod 4) = [''0123'' ! (k mod 4)]"
proof -
  have "k mod 4 < 4" by simp
  then consider "k mod 4 = 0" | "k mod 4 = 1" | "k mod 4 = 2" | "k mod 4 = 3" by linarith
  then show ?thesis
    by cases (simp_all add: number_toString.simps)
qed

lemma classes_callback_eq:
  "classes_callback k whole caps =
     (''<p'' @ class_append (''g-line g-l'' @ [''0123'' ! (k mod 4)]) (caps ! 0) @ ''>'' @
        caps ! 1 @ ''</p>'', Suc k)"
  by (simp add: classes_callback_def number_toString_mod4 Let_def)

lemma wrapper_callback_eq:
  "wrapper_callback k whole caps =
     (''<p'' @ class_append ''g-line'' (caps ! 0) @ ''>'' @
        (if hasClip (caps ! 1) then caps ! 1
         else ''<span class=\"g-clip g-l'' @ [''0123'' ! (k mod 4)] @ ''\">'' @ caps ! 1 @ ''</span>'') @
        ''</p>'', Suc k)"
  by (simp add: wrapper_callback_def number_toString_mod4 Let_def)

lemma p_results_no_match:
  assumes "\<not> rx_test True paragraphRx s"
  shows "rx_results True paragraphRx None s = ([], s)"
proof -
  from assms have "rx_search True paragraphRx None s = None"
    unfolding rx_test_def by blast
  then show ?thesis by (subst rx_results.simps) simp
qed

lemma classes_callback_snd: "snd (classes_callback k whole caps) = Suc k"
  by (simp add: classes_callback_eq)

lemma wrapper_callback_snd: "snd (wrapper_callback k whole caps) = Suc k"
  by (simp add: wrapper_callback_eq)

lemma transform_classes_on:
  assumes "gradientEnabled (viewSettings c) = Some True"
    and "rx_results True paragraphRx None (content c) = (segs, tail)"
  shows "transform_classes c =
     concat (map (\<lambda>(k, pre, whole, caps). pre @ fst (classes_callback k whole caps))
       (enumerate 0 segs)) @ tail"
  using assms
  by (simp add: transform_classes_def js_replace_all_def rx_replace_from_def
      rx_build_enumerate [of classes_callback, OF classes_callback_snd])

lemma transform_wrapper_on:
  assumes "gradientEnabled (viewSettings c) = Some True"
    and "rx_results True paragraphRx None (content c) = (segs, tail)"
  shows "transform_wrapper c =
     concat (map (\<lambda>(k, pre, whole, caps). pre @ fst (wrapper_callback k whole caps))
       (enumerate 0 segs)) @ tail"
  using assms
  by (simp add: transform_wrapper_def js_replace_all_def rx_replace_from_def
      rx_build_enumerate [of wrapper_callback, OF wrapper_callback_snd])


lemma p_results_prev:
  "rx_results True paragraphRx prev s = rx_results True paragraphRx prev' s"
proof (induction s arbitrary: prev prev' rule: p_induct)
  case Nil
  then show ?case by simp
next
  case (Skip c cs)
  then show ?case by (simp add: p_results_Skip)
next
  case (Match c cs attrs inner rest)
  from Match.IH [of "prev_after prev (take (Suc (length cs) - length rest) (c # cs))"
      "prev_after prev' (take (Suc (length cs) - length rest) (c # cs))"]
  show ?case
    by (simp add: p_results_Match [OF Match.hyps])
qed

lemma starts_with_canon:
  "length l = length s \<Longrightarrow> starts_with True l s \<longleftrightarrow> map canonicalize s = map canonicalize l"
proof (induction l arbitrary: s)
  case Nil
  then show ?case by simp
next
  case (Cons a l)
  then obtain c cs where s: "s = c # cs" by (cases s) auto
  with Cons.prems Cons.IH [of cs] show ?case by auto
qed

lemma find_close_found:
  "starts_with True ''</p>'' cl \<Longrightarrow> find_close (a @ cl @ b) \<noteq> None"
proof (induction a)
  case Nil
  from starts_with_length [OF Nil] have "cl \<noteq> []" by auto
  then obtain c cs where "cl = c # cs" by (cases cl) auto
  with Nil starts_with_append [OF Nil, of b] show ?case
    by (simp del: starts_with.simps)
next
  case (Cons x a)
  then show ?case
    by (cases "find_close (a @ cl @ b)") (auto simp del: starts_with.simps)
qed

lemma canon_open:
  assumes "length op = 2" "starts_with True ''<p'' op"
  shows "map canonicalize op = ''<P''"
proof -
  from assms(1) have "length op = length ''<p''" by simp
  from starts_with_canon [OF this [symmetric]] assms(2)
  have "map canonicalize op = map canonicalize ''<p''" by blast
  then show ?thesis by simp
qed

lemma canon_close:
  assumes "length cl = 4" "starts_with True ''</p>'' cl"
  shows "map canonicalize cl = ''</P>''"
proof -
  from assms(1) have "length cl = length ''</p>''" by simp
  from starts_with_canon [OF this [symmetric]] assms(2)
  have "map canonicalize cl = map canonicalize ''</p>''" by blast
  then show ?thesis by simp
qed

lemma canon_close_conv:
  assumes "map canonicalize cl = ''</P>''"
  shows "starts_with True ''</p>'' cl"
proof -
  from assms have "length (map canonicalize cl) = length ''</P>''" by simp
  then have "length ''</p>'' = length cl" by simp
  from starts_with_canon [OF this] assms show ?thesis by simp
qed

lemma no_close_inside:
  assumes "find_close inner = None" "inner = x @ cl' @ y"
  shows "map canonicalize cl' \<noteq> ''</P>''"
proof
  assume "map canonicalize cl' = ''</P>''"
  from find_close_found [OF canon_close_conv [OF this], of x y] assms show False by simp
qed

lemma p_head_block_shape:
  assumes "p_head s = Some (attrs, inner, rest)"
  shows "block_shape (take (length s - length rest) s) [attrs, inner]"
proof -
  from p_head_shape [OF assms] obtain op cl where
    s: "s = op @ attrs @ CHR ''>'' # inner @ cl @ rest" and op: "length op = 2" "starts_with True ''<p'' op"
    and cl: "length cl = 4" "starts_with True ''</p>'' cl"
    and a: "CHR ''>'' \<notin> set attrs" and i: "find_close inner = None"
    by blast
  have "take (length (w @ rest) - length rest) (w @ rest) = w" for w :: string
    by simp
  from this [of "op @ attrs @ ''>'' @ inner @ cl"] s
  have w: "take (length s - length rest) s = op @ attrs @ ''>'' @ inner @ cl"
    by simp
  have n: "\<forall>x cl' y. inner = x @ cl' @ y \<longrightarrow> map canonicalize cl' \<noteq> ''</P>''"
    using no_close_inside [OF i] by blast
  show ?thesis
    unfolding block_shape_def
  proof (intro exI conjI)
    show "[attrs, inner] = [attrs, inner]" ..
    show "take (length s - length rest) s = op @ attrs @ ''>'' @ inner @ cl" by (rule w)
    show "map canonicalize op = ''<P''" by (rule canon_open [OF op])
    show "map canonicalize cl = ''</P>''" by (rule canon_close [OF cl])
    show "CHR ''>'' \<notin> set attrs" by (rule a)
    show "\<forall>x cl' y. inner = x @ cl' @ y \<longrightarrow> map canonicalize cl' \<noteq> ''</P>''" by (rule n)
  qed
qed

lemma p_results_shape:
  "rx_results True paragraphRx prev s = (segs, tail) \<Longrightarrow>
     \<forall>(pre, whole, caps) \<in> set segs. block_shape whole caps"
proof (induction s arbitrary: prev segs tail rule: p_induct)
  case Nil
  then show ?case by simp
next
  case (Skip c cs)
  obtain segs' tail' where r: "rx_results True paragraphRx (Some c) cs = (segs', tail')"
    by (cases "rx_results True paragraphRx (Some c) cs")
  from Skip.IH [OF r] Skip.prems r show ?case
    unfolding p_results_Skip [OF Skip.hyps]
    by (auto split: list.splits)
next
  case (Match c cs attrs inner rest)
  let ?w = "take (Suc (length cs) - length rest) (c # cs)"
  obtain segs' tail' where r: "rx_results True paragraphRx (prev_after prev ?w) rest = (segs', tail')"
    by (cases "rx_results True paragraphRx (prev_after prev ?w) rest")
  from p_head_block_shape [OF Match.hyps] have "block_shape ?w [attrs, inner]" by simp
  with Match.IH [OF r] Match.prems r show ?case
    unfolding p_results_Match [OF Match.hyps]
    by auto
qed

lemma p_match_count:
  assumes "rx_match True paragraphRx None s [] = Some (caps, rest)"
  shows "length (fst (rx_results True paragraphRx None s)) =
     Suc (length (fst (rx_results True paragraphRx None rest)))"
proof -
  from assms obtain attrs inner where h: "p_head s = Some (attrs, inner, rest)"
    by (auto simp: p_match)
  then obtain c cs where s: "s = c # cs" by (cases s) auto
  let ?w = "take (Suc (length cs) - length rest) (c # cs)"
  obtain segs tail where r: "rx_results True paragraphRx None rest = (segs, tail)"
    by (cases "rx_results True paragraphRx None rest")
  with p_results_prev [of "prev_after None ?w" rest None]
  have "rx_results True paragraphRx (prev_after None ?w) rest = (segs, tail)" by simp
  with h s r show ?thesis
    by (simp add: p_results_Match [of c cs attrs inner rest None])
qed

lemma replace_count:
  assumes "\<And>k whole caps. snd (f k whole caps) = Suc k"
  shows "snd (js_replace_all True paragraphRx f k s) =
     k + length (fst (rx_results True paragraphRx None s))"
  by (simp add: js_replace_all_def rx_replace_from_def rx_build_enumerate [of f, OF assms]
      split: prod.splits)

lemma canon_dq [simp]: "canonicalize c = CHR 0x22 \<longleftrightarrow> c = CHR 0x22"
  by (auto simp: canonicalize_def)

lemma canon_dq' [simp]: "CHR 0x22 = canonicalize c \<longleftrightarrow> c = CHR 0x22"
  by (auto simp: canonicalize_def)

lemma canon_dq_lit [simp]: "canonicalize CHR 0x22 = CHR 0x22"
  by (simp add: canonicalize_def)

lemma greedy_dq:
  "first_some (\<lambda>k. rx_match True (lits ''\"'' @ ns) (pv k) (drop k t) (cf k))
       (rev [0..<Suc (length (takeWhile (\<lambda>c. c \<noteq> CHR 0x22) t))]) =
     rx_match True (lits ''\"'' @ ns) (pv (length (takeWhile (\<lambda>c. c \<noteq> CHR 0x22) t)))
       (dropWhile (\<lambda>c. c \<noteq> CHR 0x22) t) (cf (length (takeWhile (\<lambda>c. c \<noteq> CHR 0x22) t)))"
proof -
  let ?P = "\<lambda>c. c \<noteq> CHR 0x22"
  let ?m = "length (takeWhile ?P t)"
  let ?f = "\<lambda>k. rx_match True (lits ''\"'' @ ns) (pv k) (drop k t) (cf k)"
  have "?f k = None" if "k < ?m" for k
  proof -
    from drop_takeWhile_not [OF that] obtain c u where "drop k t = c # u" "c \<noteq> CHR 0x22"
      by blast
    then show ?thesis by (simp add: rx_match_lits)
  qed
  then have "first_some ?f (rev [0..<Suc ?m]) = ?f ?m"
    by (rule first_some_greedy)
  moreover have "drop ?m t = dropWhile ?P t"
    by (rule dropWhile_eq_drop [symmetric])
  ultimately show ?thesis by simp
qed

lemma rx_match_lits_only:
  "rx_match ic (lits l) prev s caps =
     (if starts_with ic l s then Some (caps, drop (length l) s) else None)"
  using rx_match_lits [of ic l "[]" prev s caps] by simp

lemma rx_match_value:
  "rx_match True (CapRep Greedy 0 (NoneOf ''\"'') # lits ''\"'') pv t [] =
     (case dropWhile (\<lambda>c. c \<noteq> CHR 0x22) t of
        [] \<Rightarrow> None
      | q # u \<Rightarrow> Some ([takeWhile (\<lambda>c. c \<noteq> CHR 0x22) t], u))"
proof -
  let ?P = "\<lambda>c. c \<noteq> CHR 0x22"
  have "atom_ok True (NoneOf ''\"'') = ?P"
    by (rule ext) simp
  then have b: "attempts Greedy 0 (length (takeWhile (atom_ok True (NoneOf ''\"'')) t)) =
        rev [0..<Suc (length (takeWhile ?P t))]"
    by (simp add: attempts_def)
  have t: "take (length (takeWhile ?P t)) t = takeWhile ?P t"
    by (rule takeWhile_eq_take [symmetric])
  have m: "rx_match True (CapRep Greedy 0 (NoneOf ''\"'') # lits ''\"'' @ []) pv t [] =
      rx_match True (lits ''\"'' @ []) (prev_after pv (takeWhile ?P t)) (dropWhile ?P t)
        [takeWhile ?P t]"
    using greedy_dq [of "[]" "\<lambda>k. prev_after pv (take k t)" t "\<lambda>k. [take k t]"]
    by (simp add: b t del: upt_Suc atom_ok.simps)
  show ?thesis
  proof (cases "dropWhile ?P t")
    case Nil
    then show ?thesis using m
      by (simp add: rx_match_lits_only del: dropWhile_eq_Nil_conv)
  next
    case (Cons g u)
    with hd_dropWhile [of ?P t] have "g = CHR 0x22" by auto
    with Cons show ?thesis using m by (simp add: rx_match_lits_only)
  qed
qed

lemma c_match:
  "rx_match True classRegex prev s [] = map_option (\<lambda>(v, rest). ([v], rest)) (c_head s)"
proof -
  have eq: "classRegex = lits ''class=\"'' @ (CapRep Greedy 0 (NoneOf ''\"'') # lits ''\"'')"
    by (simp add: classRegex_def)
  have "rx_match True classRegex prev s [] =
      (if starts_with True ''class=\"'' s
       then rx_match True (CapRep Greedy 0 (NoneOf ''\"'') # lits ''\"'')
              (prev_after prev (take 7 s)) (drop 7 s) []
       else None)"
    unfolding eq rx_match_lits by (simp add: eval_nat_numeral)
  then show ?thesis
    unfolding rx_match_value c_head_def
    by (simp split: list.splits del: starts_with.simps dropWhile_eq_Nil_conv)
qed



lemma canon_class_length:
  "map canonicalize nm = ''CLASS='' \<Longrightarrow> \<exists>a b c d e f. nm = [a, b, c, d, e, f]"
proof -
  assume "map canonicalize nm = ''CLASS=''"
  then have "length (map canonicalize nm) = length ''CLASS=''" by simp
  then have "length nm = Suc (Suc (Suc (Suc (Suc (Suc 0)))))" by simp
  then show ?thesis by (auto simp: length_Suc_conv)
qed

lemma canon_upper [simp]:
  "canonicalize CHR ''c'' = CHR ''C''" "canonicalize CHR ''l'' = CHR ''L''"
  "canonicalize CHR ''a'' = CHR ''A''" "canonicalize CHR ''s'' = CHR ''S''"
  "canonicalize CHR ''='' = CHR ''=''"
  by (simp_all add: canonicalize_def)


lemma c_head_single_quote:
  assumes "map canonicalize nm = ''CLASS=''"
  shows "c_head (nm @ CHR 0x27 # r) = None"
proof -
  from canon_class_length [OF assms] obtain a b c d e f where nm: "nm = [a, b, c, d, e, f]"
    by blast
  then show ?thesis by (simp add: c_head_def)
qed


lemma class_append_none:
  assumes "\<not> rx_test True classRegex attrs"
  shows "class_append added attrs = attrs @ '' class=\"'' @ added @ ''\"''"
  using assms by (simp add: class_append_def)


lemma no_dq_no_class:
  assumes "CHR 0x22 \<notin> set s"
  shows "rx_search True classRegex prev s = None"
  using assms
proof (induction s arbitrary: prev)
  case Nil
  then show ?case by (simp add: rx_search.simps c_match c_head_def)
next
  case (Cons c cs)
  have "c_head (c # cs) = None"
  proof (cases "c_head (c # cs)")
    case None
    then show ?thesis .
  next
    case (Some t)
    then obtain q u where d: "dropWhile (\<lambda>c. c \<noteq> CHR 0x22) (drop 7 (c # cs)) = q # u"
      by (auto simp: c_head_def split: if_splits list.splits simp del: starts_with.simps dropWhile_eq_Nil_conv)
    then have "dropWhile (\<lambda>c. c \<noteq> CHR 0x22) (drop 7 (c # cs)) \<noteq> []" by simp
    from hd_dropWhile [OF this] d have "q = CHR 0x22" by simp
    with d have "CHR 0x22 \<in> set (dropWhile (\<lambda>c. c \<noteq> CHR 0x22) (drop 7 (c # cs)))"
      by simp
    then have "CHR 0x22 \<in> set (c # cs)"
      by (meson in_set_dropD set_dropWhileD)
    with Cons.prems show ?thesis by simp
  qed
  with Cons show ?case by (simp add: rx_search.simps c_match)
qed

lemma find_close_drop:
  assumes "find_close u = None"
  shows "find_close (drop j u) = None"
proof (cases "find_close (drop j u)")
  case None
  then show ?thesis .
next
  case (Some t)
  obtain i r where t: "t = (i, r)" by (cases t)
  from find_close_shape [of "drop j u" i r] Some t obtain cl where
    cl: "drop j u = i @ cl @ r" "starts_with True ''</p>'' cl" by auto
  have "u = take j u @ drop j u" by simp
  with cl(1) have "u = (take j u @ i) @ cl @ r" by simp
  with find_close_found [OF cl(2), of "take j u @ i" r] assms show ?thesis by simp
qed

lemma closable_drop:
  assumes "\<not> closable s"
  shows "\<not> closable (drop j s)"
proof
  assume "closable (drop j s)"
  then obtain a u where au: "drop j s = a @ CHR ''>'' # u" "find_close u \<noteq> None"
    unfolding closable_def by auto
  have "s = take j s @ drop j s" by simp
  with au(1) have "s = (take j s @ a) @ CHR ''>'' # u" by simp
  with au(2) assms show False unfolding closable_def by blast
qed

lemma p_head_closable:
  assumes "p_head s = Some (attrs, inner, rest)"
  shows "closable s"
proof -
  from p_head_shape [OF assms] obtain op cl where
    s: "s = op @ attrs @ CHR ''>'' # inner @ cl @ rest" and cl: "starts_with True ''</p>'' cl"
    by blast
  from find_close_found [OF cl, of inner rest] have "find_close (inner @ cl @ rest) \<noteq> None" .
  with s have "s = (op @ attrs) @ CHR ''>'' # (inner @ cl @ rest) \<and> find_close (inner @ cl @ rest) \<noteq> None"
    by simp
  then show ?thesis unfolding closable_def by (intro exI)
qed

lemma not_closable_replace:
  assumes "\<not> closable s"
  shows "rx_replace_from True paragraphRx f k prev s = (s, k)"
  using assms
proof (induction s arbitrary: prev)
  case Nil
  then show ?case by simp
next
  case (Cons c cs)
  have h: "p_head (c # cs) = None"
  proof (cases "p_head (c # cs)")
    case None
    then show ?thesis .
  next
    case (Some t)
    obtain a i r where "t = (a, i, r)" by (cases t)
    with Some p_head_closable [of "c # cs" a i r] Cons.prems show ?thesis by simp
  qed
  from closable_drop [OF Cons.prems, of 1] have "\<not> closable cs" by simp
  from Cons.IH [OF this] show ?case
    by (simp add: p_replace_Skip [OF h])
qed

lemma not_closable_results:
  assumes "\<not> closable s"
  shows "rx_results True paragraphRx prev s = ([], s)"
  using assms
proof (induction s arbitrary: prev)
  case Nil
  then show ?case by simp
next
  case (Cons c cs)
  have h: "p_head (c # cs) = None"
  proof (cases "p_head (c # cs)")
    case None
    then show ?thesis .
  next
    case (Some t)
    obtain a i r where "t = (a, i, r)" by (cases t)
    with Some p_head_closable [of "c # cs" a i r] Cons.prems show ?thesis by simp
  qed
  from closable_drop [OF Cons.prems, of 1] have "\<not> closable cs" by simp
  from Cons.IH [OF this] show ?case
    by (simp add: p_results_Skip [OF h])
qed

lemma starts_open_Cons:
  assumes "starts_with True ''<p'' (c # cs)"
  shows "c = CHR ''<'' \<and> (\<exists>x t. cs = x # t \<and> (x = CHR ''p'' \<or> x = CHR ''P''))"
proof (cases cs)
  case Nil
  with assms show ?thesis by simp
next
  case (Cons x t)
  with assms show ?thesis by simp
qed

lemma takeWhile_length_le:
  assumes "t = a @ x # u" "\<not> P x"
  shows "length (takeWhile P t) \<le> length a"
proof (rule ccontr)
  assume "\<not> length (takeWhile P t) \<le> length a"
  then have l: "length a < length (takeWhile P t)" by simp
  then have "takeWhile P t ! length a = t ! length a"
    by (rule takeWhile_nth)
  moreover from l have "takeWhile P t ! length a \<in> set (takeWhile P t)"
    by (rule nth_mem)
  ultimately have "P (t ! length a)"
    by (auto dest: set_takeWhileD)
  with assms show False by simp
qed

lemma open_fail_not_closable:
  assumes "starts_with True ''<p'' (c # cs)" "p_head (c # cs) = None"
  shows "\<not> closable cs"
proof
  let ?P = "\<lambda>c. c \<noteq> CHR ''>''"
  assume "closable cs"
  then obtain a u where au: "cs = a @ CHR ''>'' # u" "find_close u \<noteq> None"
    unfolding closable_def by auto
  from starts_open_Cons [OF assms(1)] obtain x t where cs: "cs = x # t" and x: "x \<noteq> CHR ''>''"
    by auto
  from au(1) cs x obtain a' where a': "a = x # a'" by (cases a) auto
  with au(1) cs have t: "t = a' @ CHR ''>'' # u" by simp
  have l: "length (takeWhile ?P t) \<le> length a'"
    by (rule takeWhile_length_le [OF t]) simp
  have tw: "takeWhile ?P t @ dropWhile ?P t = t" by simp
  from t have "dropWhile ?P t \<noteq> []" by simp
  then obtain g w where d: "dropWhile ?P t = g # w"
    by (cases "dropWhile ?P t") simp_all
  from tw d have t2: "t = takeWhile ?P t @ g # w" by simp
  have "drop (Suc (length a')) (a' @ CHR ''>'' # u) = u" by simp
  with t have u1: "drop (Suc (length a')) t = u" by simp
  have "drop (Suc (length a')) (takeWhile ?P t @ g # w) =
      drop (length a' - length (takeWhile ?P t)) w"
    using l by (simp add: Suc_diff_le)
  with t2 have u2: "drop (Suc (length a')) t = drop (length a' - length (takeWhile ?P t)) w"
    by simp
  from u1 u2 have j: "u = drop (length a' - length (takeWhile ?P t)) w" by simp
  have "p_head (c # x # t) =
      map_option (\<lambda>(inner, rest). (takeWhile ?P t, inner, rest)) (find_close w)"
    using assms(1) cs d by (simp add: p_head_def del: starts_with.simps)
  with assms(2) cs have "find_close w = None"
    by (cases "find_close w") simp_all
  from find_close_drop [OF this, of "length a' - length (takeWhile ?P t)"] j au(2)
  show False by simp
qed

lemma p_R_Skip:
  assumes "p_head (c # cs) = None"
  shows "rx_results True paragraphRx None (c # cs) =
     (case rx_results True paragraphRx None cs of
        ([], tail) \<Rightarrow> ([], c # tail)
      | ((pre, m) # segs, tail) \<Rightarrow> ((c # pre, m) # segs, tail))"
  using p_results_Skip [OF assms, of None] p_results_prev [of "Some c" cs None]
  by simp

lemma p_R_Match:
  assumes "p_head s = Some (attrs, inner, rest)" "s = w @ rest"
  shows "rx_results True paragraphRx None s =
     (case rx_results True paragraphRx None rest of
        (segs, tail) \<Rightarrow> (([], w, [attrs, inner]) # segs, tail))"
proof -
  from assms(1) obtain c cs where s: "s = c # cs" by (cases s) auto
  from assms(2) s have e: "c # cs = w @ rest" by simp
  then have "length (c # cs) = length (w @ rest)" by (rule arg_cong)
  then have len: "Suc (length cs) - length rest = length w" by simp
  have w: "take (Suc (length cs) - length rest) (c # cs) = w"
    by (subst e) (simp add: len)
  from assms(1) s have h: "p_head (c # cs) = Some (attrs, inner, rest)" by simp
  show ?thesis
    using p_results_Match [OF h, of None] p_results_prev [of "prev_after None w" rest None]
    by (simp add: s w)
qed

lemma find_close_at_tag:
  assumes "find_close i = None"
  shows "find_close (i @ ''</p>'' @ out) = Some (i, out)"
proof -
  have "find_close (i @ CHR ''<'' # (''/p>'' @ out)) =
      map_option (\<lambda>(x, r). (i @ x, r)) (find_close (CHR ''<'' # (''/p>'' @ out)))"
    by (rule find_close_lt [OF assms])
  then show ?thesis by simp
qed

lemma p_head_rendered:
  assumes "CHR ''>'' \<notin> set a" "find_close i = None"
  shows "p_head ((''<p'' @ a @ ''>'' @ i @ ''</p>'') @ out) = Some (a, i, out)"
proof -
  have "p_head (''<p'' @ a @ CHR ''>'' # (i @ ''</p>'' @ out)) = Some (a, i, out)"
    by (rule p_head_intro [OF _ _ assms(1) find_close_at_tag [OF assms(2)]]) simp_all
  then show ?thesis by simp
qed

lemma build_hd:
  assumes f: "\<And>k whole caps. fst (f k whole caps) = ''<p'' @ B k whole caps"
    and r: "rx_results True paragraphRx None s = (segs, tail)"
  shows "take 1 (fst (rx_build f k segs) @ tail) = take 1 s"
proof (cases s)
  case Nil
  with r show ?thesis by simp
next
  case (Cons c cs)
  obtain segs' tail' where r': "rx_results True paragraphRx None cs = (segs', tail')"
    by (cases "rx_results True paragraphRx None cs")
  show ?thesis
  proof (cases "p_head (c # cs)")
    case None
    from r Cons r' show ?thesis
      unfolding Cons p_R_Skip [OF None]
      by (cases segs') (auto split: prod.splits)
  next
    case (Some t)
    obtain a i rest where t: "t = (a, i, rest)" by (cases t)
    from Some t have h: "p_head (c # cs) = Some (a, i, rest)" by simp
    from starts_open_Cons [of c cs] h have c: "c = CHR ''<''"
      by (auto simp: p_head_def split: if_splits simp del: starts_with.simps)
    have w: "c # cs = take (length (c # cs) - length rest) (c # cs) @ rest"
      using p_head_whole(1) [OF h] by simp
    obtain segs2 tail2 where r2: "rx_results True paragraphRx None rest = (segs2, tail2)"
      by (cases "rx_results True paragraphRx None rest")
    from p_R_Match [OF h w] r2 r Cons
    have "segs = ([], take (length (c # cs) - length rest) (c # cs), [a, i]) # segs2" by simp
    moreover obtain rep k' where fk:
      "f k (take (length (c # cs) - length rest) (c # cs)) [a, i] = (rep, k')"
      by (cases "f k (take (length (c # cs) - length rest) (c # cs)) [a, i]")
    moreover obtain out k2 where "rx_build f k' segs2 = (out, k2)"
      by (cases "rx_build f k' segs2")
    ultimately have "fst (rx_build f k segs) = rep @ out" by simp
    moreover from f [of k "take (length (c # cs) - length rest) (c # cs)" "[a, i]"] fk
    have "rep = ''<p'' @ B k (take (length (c # cs) - length rest) (c # cs)) [a, i]" by simp
    ultimately show ?thesis using c Cons by simp
  qed
qed

lemma starts_open_hd:
  assumes "take 1 x = take 1 y"
  shows "starts_with True ''<p'' (c # x) = starts_with True ''<p'' (c # y)"
proof (cases x)
  case Nil
  with assms have "y = []" by (cases y) simp_all
  with Nil show ?thesis by simp
next
  case (Cons a x')
  with assms obtain y' where "y = a # y'" by (cases y) simp_all
  with Cons show ?thesis by simp
qed

lemma rescan:
  assumes f: "\<And>k whole caps.
      f k whole caps = (''<p'' @ A k (caps ! 0) @ ''>'' @ I k (caps ! 1) @ ''</p>'', Suc k)"
    and A: "\<And>k a. CHR ''>'' \<notin> set a \<Longrightarrow> CHR ''>'' \<notin> set (A k a)"
    and I: "\<And>k i. find_close i = None \<Longrightarrow> find_close (I k i) = None"
  shows "rx_results True paragraphRx None s = (segs, tail) \<Longrightarrow>
     rx_results True paragraphRx None (fst (rx_build f k segs) @ tail) =
       (map (\<lambda>(j, pre, whole, caps).
              (pre, ''<p'' @ A j (caps ! 0) @ ''>'' @ I j (caps ! 1) @ ''</p>'',
               [A j (caps ! 0), I j (caps ! 1)]))
          (enumerate k segs), tail)"
proof (induction s arbitrary: k segs tail rule: p_induct)
  case Nil
  then show ?case by simp
next
  case (Skip c cs)
  let ?G = "\<lambda>(j, pre, whole, caps).
              (pre, ''<p'' @ A j (caps ! 0) @ ''>'' @ I j (caps ! 1) @ ''</p>'',
               [A j (caps ! 0), I j (caps ! 1)])"
  obtain segs' tail' where r': "rx_results True paragraphRx None cs = (segs', tail')"
    by (cases "rx_results True paragraphRx None cs")
  show ?case
  proof (cases segs')
    case Nil
    with Skip.prems r' have st: "segs = []" "tail = c # tail'"
      by (simp_all add: p_R_Skip [OF Skip.hyps])
    from p_results_concat [OF Skip.prems] st have "tail = c # cs" by simp
    with Skip.prems st show ?thesis by simp
  next
    case (Cons seg segs'')
    obtain pre whole caps where seg: "seg = (pre, whole, caps)" by (cases seg)
    from Skip.prems r' Cons seg have st: "segs = (c # pre, whole, caps) # segs''" "tail = tail'"
      by (simp_all add: p_R_Skip [OF Skip.hyps])
    let ?out = "fst (rx_build f k segs') @ tail'"
    have out: "fst (rx_build f k segs) @ tail = c # ?out"
      using st Cons seg by (simp add: f split: prod.splits)
    have ih: "rx_results True paragraphRx None ?out = (map ?G (enumerate k segs'), tail')"
      by (rule Skip.IH [OF r'])
    have ns: "\<not> starts_with True ''<p'' (c # cs)"
    proof
      assume "starts_with True ''<p'' (c # cs)"
      from not_closable_results [OF open_fail_not_closable [OF this Skip.hyps], of None] r' Cons
      show False by simp
    qed
    have "fst (f k whole caps) = ''<p'' @ (A k (caps ! 0) @ ''>'' @ I k (caps ! 1) @ ''</p>'')"
      for k whole caps by (simp add: f)
    from build_hd [of f "\<lambda>k whole caps. A k (caps ! 0) @ ''>'' @ I k (caps ! 1) @ ''</p>''",
        OF this r', of k]
    have "take 1 ?out = take 1 cs" .
    from starts_open_hd [OF this, of c] ns have "\<not> starts_with True ''<p'' (c # ?out)" by simp
    then have h: "p_head (c # ?out) = None"
      by (simp add: p_head_def del: starts_with.simps)
    show ?thesis
      unfolding out p_R_Skip [OF h] ih
      using st Cons seg by simp
  qed
next
  case (Match c cs attrs inner rest)
  let ?G = "\<lambda>(j, pre, whole, caps).
              (pre, ''<p'' @ A j (caps ! 0) @ ''>'' @ I j (caps ! 1) @ ''</p>'',
               [A j (caps ! 0), I j (caps ! 1)])"
  let ?w = "take (length (c # cs) - length rest) (c # cs)"
  let ?rep = "''<p'' @ A k attrs @ ''>'' @ I k inner @ ''</p>''"
  obtain segs_r tail_r where r: "rx_results True paragraphRx None rest = (segs_r, tail_r)"
    by (cases "rx_results True paragraphRx None rest")
  have w: "c # cs = ?w @ rest"
    using p_head_whole(1) [OF Match.hyps] by simp
  from p_R_Match [OF Match.hyps w] r Match.prems
  have st: "segs = ([], ?w, [attrs, inner]) # segs_r" "tail = tail_r" by simp_all
  let ?out = "fst (rx_build f (Suc k) segs_r) @ tail_r"
  have out: "fst (rx_build f k segs) @ tail = ?rep @ ?out"
    using st by (simp add: f split: prod.splits)
  have ih: "rx_results True paragraphRx None ?out = (map ?G (enumerate (Suc k) segs_r), tail_r)"
    by (rule Match.IH [OF r])
  from p_head_shape [OF Match.hyps] have a: "CHR ''>'' \<notin> set attrs" and i: "find_close inner = None"
    by auto
  have h: "p_head (?rep @ ?out) = Some (A k attrs, I k inner, ?out)"
    by (rule p_head_rendered [OF A [OF a] I [OF i]])
  show ?case
    unfolding out p_R_Match [OF h refl] ih
    using st by simp
qed

lemma digit_cases:
  "''0123'' ! (k mod 4) = CHR ''0'' \<or> ''0123'' ! (k mod 4) = CHR ''1'' \<or>
   ''0123'' ! (k mod 4) = CHR ''2'' \<or> ''0123'' ! (k mod 4) = CHR ''3''"
proof -
  have "k mod 4 < 4" by simp
  then consider "k mod 4 = 0" | "k mod 4 = 1" | "k mod 4 = 2" | "k mod 4 = 3" by linarith
  then show ?thesis by cases simp_all
qed

lemma hasClip_wrapped_digit:
  assumes "d = CHR ''0'' \<or> d = CHR ''1'' \<or> d = CHR ''2'' \<or> d = CHR ''3''"
  shows "hasClip (''<span class=\"g-clip g-l'' @ [d] @ ''\">'' @ x)"
proof -
  have "hasClip (''<span class=\"g-clip g-l'' @ [CHR ''0''] @ ''\">'' @ x)"
    by (simp add: hasClip_def rx_test_def rx_search.simps clipRx_def lits_def attempts_def
      prev_after_def at_boundary_def js_word_char_def js_space_def)
  moreover have "hasClip (''<span class=\"g-clip g-l'' @ [CHR ''1''] @ ''\">'' @ x)"
    by (simp add: hasClip_def rx_test_def rx_search.simps clipRx_def lits_def attempts_def
      prev_after_def at_boundary_def js_word_char_def js_space_def)
  moreover have "hasClip (''<span class=\"g-clip g-l'' @ [CHR ''2''] @ ''\">'' @ x)"
    by (simp add: hasClip_def rx_test_def rx_search.simps clipRx_def lits_def attempts_def
      prev_after_def at_boundary_def js_word_char_def js_space_def)
  moreover have "hasClip (''<span class=\"g-clip g-l'' @ [CHR ''3''] @ ''\">'' @ x)"
    by (simp add: hasClip_def rx_test_def rx_search.simps clipRx_def lits_def attempts_def
      prev_after_def at_boundary_def js_word_char_def js_space_def)
  ultimately show ?thesis using assms by (elim disjE) simp_all
qed

lemma hasClip_wrapped:
  "hasClip (''<span class=\"g-clip g-l'' @ [''0123'' ! (k mod 4)] @ ''\">'' @ x)"
  by (rule hasClip_wrapped_digit [OF digit_cases])

lemma find_close_no_lt:
  assumes "CHR ''<'' \<notin> set x"
  shows "find_close (x @ z) = map_option (\<lambda>(i, r). (x @ i, r)) (find_close z)"
  using assms
proof (induction x)
  case Nil
  then show ?case by (simp add: option.map_ident case_prod_beta)
next
  case (Cons c x)
  then have "c \<noteq> CHR ''<''" "CHR ''<'' \<notin> set x" by auto
  with Cons.IH show ?case
    by (simp add: option.map_comp comp_def case_prod_beta)
qed

lemma find_close_span_end: "find_close ''</span>'' = None"
  by (simp add: canonicalize_def)

lemma find_close_wrapped:
  assumes "find_close i = None"
  shows "find_close (''<span class=\"g-clip g-l'' @ [''0123'' ! (k mod 4)] @ ''\">'' @ i @
      ''</span>'') = None"
proof -
  let ?d = "''0123'' ! (k mod 4)"
  let ?x = "''span class=\"g-clip g-l'' @ [?d] @ ''\">''"
  have z: "find_close (i @ ''</span>'') = None"
    using find_close_lt [OF assms, of "''/span>''"] find_close_span_end by simp
  from digit_cases [of k] have "CHR ''<'' \<notin> set ?x" by auto
  from find_close_no_lt [OF this, of "i @ ''</span>''"] z
  have "find_close (?x @ i @ ''</span>'') = None" by simp
  moreover have "\<not> starts_with True ''</p>'' (CHR ''<'' # ?x @ i @ ''</span>'')"
    by (simp add: canonicalize_def)
  ultimately have "find_close (CHR ''<'' # ?x @ i @ ''</span>'') = None"
    by (simp del: starts_with.simps)
  then show ?thesis by simp
qed

lemma c_search_Nil: "rx_search True classRegex prev [] = None"
  by (simp add: rx_search.simps c_match c_head_def)

lemma c_search_None:
  assumes "c_head (c # cs) = None"
  shows "rx_search True classRegex prev (c # cs) =
     map_option (\<lambda>(pre, whole, caps). (c # pre, whole, caps))
       (rx_search True classRegex (Some c) cs)"
  using assms by (simp add: rx_search.simps c_match)

lemma c_search_Some:
  assumes "c_head (c # cs) = Some (v, rest)"
  shows "rx_search True classRegex prev (c # cs) =
     Some ([], take (Suc (length cs) - length rest) (c # cs), [v])"
  using assms by (simp add: rx_search.simps c_match)

lemma c_head_value:
  assumes "c_head s = Some (v, rest)"
  shows "set v \<subseteq> set s"
proof -
  have "v = takeWhile (\<lambda>c. c \<noteq> CHR 0x22) (drop 7 s)"
  proof (cases "starts_with True ''class=\"'' s")
    case False
    with assms show ?thesis by (simp add: c_head_def del: starts_with.simps)
  next
    case True
    show ?thesis
    proof (cases "dropWhile (\<lambda>c. c \<noteq> CHR 0x22) (drop 7 s)")
      case Nil
      with True assms show ?thesis
        by (simp add: c_head_def del: starts_with.simps dropWhile_eq_Nil_conv)
    next
      case (Cons q u)
      with True assms show ?thesis
        by (simp add: c_head_def del: starts_with.simps dropWhile_eq_Nil_conv)
    qed
  qed
  then have "set v \<subseteq> set (drop 7 s)"
    by (auto dest: set_takeWhileD)
  also have "\<dots> \<subseteq> set s" by (rule set_drop_subset)
  finally show ?thesis .
qed

lemma c_search_parts:
  "rx_search True classRegex prev s = Some (pre, whole, caps) \<Longrightarrow>
     set pre \<subseteq> set s \<and> (\<exists>v. caps = [v] \<and> set v \<subseteq> set s)"
proof (induction s arbitrary: prev pre)
  case Nil
  then show ?case by (simp add: c_search_Nil)
next
  case (Cons c cs)
  show ?case
  proof (cases "c_head (c # cs)")
    case None
    from Cons.prems obtain pre' where
      p: "rx_search True classRegex (Some c) cs = Some (pre', whole, caps)" "pre = c # pre'"
      unfolding c_search_None [OF None] by auto
    from Cons.IH [OF p(1)] obtain v where "set pre' \<subseteq> set cs" "caps = [v]" "set v \<subseteq> set cs"
      by auto
    with p(2) have "set pre \<subseteq> set (c # cs) \<and> caps = [v] \<and> set v \<subseteq> set (c # cs)"
      by auto
    then show ?thesis by (intro conjI exI [of _ v]) simp_all
  next
    case (Some t)
    obtain v rest where t: "t = (v, rest)" by (cases t)
    with Some have h: "c_head (c # cs) = Some (v, rest)" by simp
    from Cons.prems have "pre = []" "caps = [v]"
      unfolding c_search_Some [OF h] by simp_all
    with c_head_value [OF h] show ?thesis by simp
  qed
qed

lemma class_append_no_gt:
  assumes "CHR ''>'' \<notin> set attrs" "CHR ''>'' \<notin> set added"
  shows "CHR ''>'' \<notin> set (class_append added attrs)"
proof (cases "rx_search True classRegex None attrs")
  case None
  with assms show ?thesis
    by (simp add: class_append_def rx_test_def)
next
  case (Some t)
  obtain pre whole caps where t: "t = (pre, whole, caps)" by (cases t)
  with Some have s: "rx_search True classRegex None attrs = Some (pre, whole, caps)" by simp
  from c_search_parts [OF s] obtain v where
    v: "set pre \<subseteq> set attrs" "caps = [v]" "set v \<subseteq> set attrs" by auto
  have d: "set (drop (length pre + length whole) attrs) \<subseteq> set attrs"
    by (rule set_drop_subset)
  have e: "class_append added attrs =
      pre @ ''class=\"'' @ v @ '' '' @ added @ ''\"'' @ drop (length pre + length whole) attrs"
    using s v(2) by (simp add: class_append_def rx_test_def js_replace_def)
  from v(1,3) d assms have "CHR ''>'' \<notin> set pre" "CHR ''>'' \<notin> set v"
    "CHR ''>'' \<notin> set (drop (length pre + length whole) attrs)"
    by auto
  with assms(2) show ?thesis unfolding e by simp
qed

lemma wrapper_callback_wrapped:
  "wrapper_callback k whole caps =
     (''<p'' @ class_append ''g-line'' (caps ! 0) @ ''>'' @ wrappedInner k (caps ! 1) @ ''</p>'',
      Suc k)"
  by (simp add: wrapper_callback_def wrappedInner_def Let_def)

lemma hasClip_wrappedInner: "hasClip (wrappedInner k i)"
  using hasClip_wrapped [of k "i @ ''</span>''"]
  by (simp add: wrappedInner_def number_toString_mod4)

lemma find_close_wrappedInner:
  "find_close i = None \<Longrightarrow> find_close (wrappedInner k i) = None"
  using find_close_wrapped [of i k]
  by (simp add: wrappedInner_def number_toString_mod4)

lemma wrappedInner_clipped: "hasClip i \<Longrightarrow> wrappedInner k i = i"
  by (simp add: wrappedInner_def)

lemma transform_wrapper_build:
  assumes "gradientEnabled (viewSettings c) = Some True"
    and "rx_results True paragraphRx None (content c) = (segs, tail)"
  shows "transform_wrapper c = fst (rx_build wrapper_callback 0 segs) @ tail"
  using assms
  by (simp add: transform_wrapper_def js_replace_all_def rx_replace_from_def split: prod.splits)

lemma wrapper_rescan:
  assumes "rx_results True paragraphRx None s = (segs, tail)"
  shows "rx_results True paragraphRx None (fst (rx_build wrapper_callback k segs) @ tail) =
       (map (\<lambda>(j, pre, whole, caps).
              (pre,
               ''<p'' @ class_append ''g-line'' (caps ! 0) @ ''>'' @ wrappedInner j (caps ! 1) @
                 ''</p>'',
               [class_append ''g-line'' (caps ! 0), wrappedInner j (caps ! 1)]))
          (enumerate k segs), tail)"
proof (rule rescan [of wrapper_callback "\<lambda>k a. class_append ''g-line'' a" wrappedInner, OF _ _ _ assms])
  show "wrapper_callback k whole caps =
      (''<p'' @ class_append ''g-line'' (caps ! 0) @ ''>'' @ wrappedInner k (caps ! 1) @ ''</p>'',
       Suc k)" for k whole caps
    by (rule wrapper_callback_wrapped)
  show "CHR ''>'' \<notin> set (class_append ''g-line'' a)" if "CHR ''>'' \<notin> set a" for k :: nat and a
    by (rule class_append_no_gt [OF that]) simp
  show "find_close (wrappedInner k i) = None" if "find_close i = None" for k i
    by (rule find_close_wrappedInner [OF that])
qed

lemma enumerate_map_cong:
  assumes "\<And>k x. x \<in> set xs \<Longrightarrow> F k x = G x"
  shows "map (\<lambda>(k, x). F k x) (enumerate n xs) = map G xs"
  using assms by (induction xs arbitrary: n) simp_all

lemma rescan_inner_clipped:
  assumes "segs1 = map (\<lambda>(j, pre, whole, caps).
              (pre,
               ''<p'' @ class_append ''g-line'' (caps ! 0) @ ''>'' @ wrappedInner j (caps ! 1) @
                 ''</p>'',
               [class_append ''g-line'' (caps ! 0), wrappedInner j (caps ! 1)]))
          (enumerate k segs)"
  shows "\<forall>(pre, whole, caps) \<in> set segs1. hasClip (caps ! 1)"
  unfolding assms by (auto simp: hasClip_wrappedInner)

lemma rebuild_clipped:
  assumes "\<forall>(pre, whole, caps) \<in> set segs. hasClip (caps ! 1)"
  shows "fst (rx_build wrapper_callback k segs) =
     concat (map (\<lambda>(pre, whole, caps).
         pre @ ''<p'' @ class_append ''g-line'' (caps ! 0) @ ''>'' @ caps ! 1 @ ''</p>'') segs)"
proof -
  have "fst (rx_build wrapper_callback k segs) =
      concat (map (\<lambda>(i, pre, whole, caps). pre @ fst (wrapper_callback i whole caps))
        (enumerate k segs))"
    by (simp add: rx_build_enumerate [of wrapper_callback, OF wrapper_callback_snd])
  also have "map (\<lambda>(i, pre, whole, caps). pre @ fst (wrapper_callback i whole caps))
        (enumerate k segs) =
      map (\<lambda>(pre, whole, caps).
         pre @ ''<p'' @ class_append ''g-line'' (caps ! 0) @ ''>'' @ caps ! 1 @ ''</p>'') segs"
  proof (rule enumerate_map_cong)
    fix i :: nat and x :: "string \<times> string \<times> string list"
    assume x: "x \<in> set segs"
    obtain pre whole caps where p: "x = (pre, whole, caps)" by (cases x)
    with x assms have "hasClip (caps ! 1)" by auto
    then show "(case x of (pre, whole, caps) \<Rightarrow> pre @ fst (wrapper_callback i whole caps)) =
        (case x of (pre, whole, caps) \<Rightarrow>
           pre @ ''<p'' @ class_append ''g-line'' (caps ! 0) @ ''>'' @ caps ! 1 @ ''</p>'')"
      by (simp add: p wrapper_callback_wrapped wrappedInner_clipped)
  qed
  finally show ?thesis .
qed

lemma rescan_inner_same:
  fixes segs :: "(string \<times> string \<times> string list) list"
  assumes "\<forall>(pre, whole, caps) \<in> set segs. hasClip (caps ! 1)"
  shows "map (\<lambda>(pre, whole, caps). caps ! 1)
       (map (\<lambda>(j, pre, whole, caps).
              (pre,
               ''<p'' @ class_append ''g-line'' (caps ! 0) @ ''>'' @ wrappedInner j (caps ! 1) @
                 ''</p>'',
               [class_append ''g-line'' (caps ! 0), wrappedInner j (caps ! 1)]))
          (enumerate k segs)) =
     map (\<lambda>(pre, whole, caps). caps ! 1) segs"
proof -
  have "map (\<lambda>(j, x). case x of (pre, whole, caps) \<Rightarrow> wrappedInner j (caps ! 1))
      (enumerate k segs) = map (\<lambda>(pre, whole, caps). caps ! 1) segs"
  proof (rule enumerate_map_cong)
    fix i :: nat and x :: "string \<times> string \<times> string list"
    assume x: "x \<in> set segs"
    obtain pre whole caps where p: "x = (pre, whole, caps)" by (cases x)
    with x assms have "hasClip (caps ! 1)" by auto
    then show "(case x of (pre, whole, caps) \<Rightarrow> wrappedInner i (caps ! 1)) =
        (case x of (pre, whole, caps) \<Rightarrow> caps ! 1)"
      by (simp add: p wrappedInner_clipped)
  qed
  then show ?thesis
    by (simp add: comp_def split_def)
qed


lemma starts_with_split:
  "starts_with ic l (q @ r) \<Longrightarrow> length q \<le> length l \<Longrightarrow> starts_with ic (drop (length q) l) r"
proof (induction q arbitrary: l)
  case Nil
  then show ?case by simp
next
  case (Cons c q)
  then show ?case by (cases l) simp_all
qed




lemma canon_sq [simp]: "canonicalize (CHR 0x27) = CHR 0x27"
  by (simp add: canonicalize_def)

lemma class_straddle:
  assumes "map canonicalize nm = ''CLASS=''" and "q \<noteq> []"
    and "\<not> starts_with True ''class=\"'' q"
  shows "\<not> starts_with True ''class=\"'' (q @ nm @ r)"
proof
  assume s: "starts_with True ''class=\"'' (q @ nm @ r)"
  from canon_class_length [OF assms(1)] obtain a b c d e f where nm: "nm = [a, b, c, d, e, f]"
    by (elim exE)
  have a: "canonicalize a = CHR ''C''" using assms(1) nm by simp
  show False
  proof (cases "7 \<le> length q")
    case True
    then have "length ''class=\"'' \<le> length q" by simp
    from starts_with_append_iff [OF this] s assms(3) show False by simp
  next
    case False
    then have le: "length q \<le> length ''class=\"''" by simp
    have t: "starts_with True (drop (length q) ''class=\"'') (nm @ r)"
      by (rule starts_with_split [OF s le])
    from assms(2) have "0 < length q" by simp
    with False consider "length q = 1" | "length q = 2" | "length q = 3" | "length q = 4"
      | "length q = 5" | "length q = 6"
      by arith
    then show False
    proof cases
      case 1 with t a nm show False by simp
    next
      case 2 with t a nm show False by simp
    next
      case 3 with t a nm show False by simp
    next
      case 4 with t a nm show False by simp
    next
      case 5 with t a nm show False by simp
    next
      case 6 with t a nm show False by simp
    qed
  qed
qed

lemma no_class_text_search:
  "\<not> holds_text ''class=\"'' s \<Longrightarrow> rx_search True classRegex prev s = None"
proof (induction s arbitrary: prev)
  case Nil
  show ?case by (rule c_search_Nil)
next
  case (Cons c cs)
  from Cons.prems have n: "\<not> starts_with True ''class=\"'' (c # cs)"
    and m: "\<not> holds_text ''class=\"'' cs"
    by simp_all
  have "c_head (c # cs) = None" unfolding c_head_def using n by (simp only: if_False)
  from c_search_None [OF this, of prev] Cons.IH [OF m, of "Some c"] show ?case by simp
qed

lemma single_quote_no_text:
  assumes "map canonicalize nm = ''CLASS=''" and "\<not> holds_text ''class=\"'' pre"
    and "\<not> holds_text ''class=\"'' w"
  shows "\<not> holds_text ''class=\"'' (pre @ nm @ CHR 0x27 # w)"
  using assms(2)
proof (induction pre)
  case Nil
  from canon_class_length [OF assms(1)] obtain a b c d e f where nm: "nm = [a, b, c, d, e, f]"
    by (elim exE)
  from assms(1) nm have k: "canonicalize a = CHR ''C''" "canonicalize b = CHR ''L''"
    "canonicalize c = CHR ''A''" "canonicalize d = CHR ''S''" "canonicalize e = CHR ''S''"
    "canonicalize f = CHR ''=''"
    by simp_all
  from assms(3) k show ?case by (simp add: nm)
next
  case (Cons c pre)
  from Cons.prems have n: "\<not> starts_with True ''class=\"'' (c # pre)"
    and m: "\<not> holds_text ''class=\"'' pre"
    by simp_all
  have "c # pre \<noteq> []" by simp
  from class_straddle [OF assms(1) this n, of "CHR 0x27 # w"] Cons.IH [OF m]
  show ?case by simp
qed


lemma build_closure:
  assumes "a < length st"
  shows "rx_build (closure_callback body a) st segs =
     (case rx_build body (st ! a) segs of (out, k) \<Rightarrow> (out, st[a := k]))"
  using assms
proof (induction segs arbitrary: st)
  case Nil
  then show ?case by simp
next
  case (Cons seg segs)
  obtain pre whole caps where seg: "seg = (pre, whole, caps)" by (cases seg)
  obtain rep k' where b: "body (st ! a) whole caps = (rep, k')"
    by (cases "body (st ! a) whole caps")
  from Cons.prems have l: "a < length (st[a := k'])" by simp
  obtain out k2 where r: "rx_build body k' segs = (out, k2)" by (cases "rx_build body k' segs")
  from Cons.prems have n: "st[a := k'] ! a = k'" by simp
  from Cons.IH [OF l] n r
  have ih: "rx_build (closure_callback body a) (st[a := k']) segs = (out, st[a := k2])"
    by simp
  have c: "closure_callback body a st whole caps = (rep, st[a := k'])"
    using b by (simp add: closure_callback_def)
  from c ih b r seg show ?case
    by simp
qed

lemma replace_closure:
  "js_replace_all True paragraphRx (closure_callback body (length st)) (st @ [0]) s =
     (fst (js_replace_all True paragraphRx body 0 s),
      st @ [snd (js_replace_all True paragraphRx body 0 s)])"
proof -
  have "length st < length (st @ [0])" by simp
  from build_closure [OF this, of body]
  show ?thesis
    by (simp add: js_replace_all_def rx_replace_from_def split: prod.splits)
qed

section \<open>The disabled transformer and the first end-to-end example\<close>

text \<open>
  C4. With \<^verbatim>\<open>gradientEnabled\<close> false or absent, both versions of the transformer
  return the content unchanged.
\<close>

theorem disabled_identity:
  "gradientEnabled (viewSettings c) \<in> {None, Some False} \<Longrightarrow>
     transform_wrapper c = content c \<and> transform_classes c = content c"
  by (auto simp: transform_wrapper_def transform_classes_def)

theorem disabled_identity_witness:
  "gradientEnabled (viewSettings \<lparr> viewSettings = \<lparr> gradientEnabled = None \<rparr>,
       content = ''<p>Hello</p>'' \<rparr>) \<in> {None, Some False} \<and>
   transform_wrapper \<lparr> viewSettings = \<lparr> gradientEnabled = None \<rparr>,
       content = ''<p>Hello</p>'' \<rparr> = ''<p>Hello</p>'' \<and>
   transform_classes \<lparr> viewSettings = \<lparr> gradientEnabled = None \<rparr>,
       content = ''<p>Hello</p>'' \<rparr> = ''<p>Hello</p>''"
  using disabled_identity
    [of "\<lparr> viewSettings = \<lparr> gradientEnabled = None \<rparr>, content = ''<p>Hello</p>'' \<rparr>"]
  by simp

text \<open>
  C1. The classes-only version, with the flag on, turns
  \<^verbatim>\<open><p>Hello</p><p>World</p>\<close> into
  \<^verbatim>\<open><p class="g-line g-l0">Hello</p><p class="g-line g-l1">World</p>\<close>.
\<close>

theorem e2e_hello_world:
  "transform_classes (flag_on ''<p>Hello</p><p>World</p>'') =
     ''<p class=\"g-line g-l0\">Hello</p><p class=\"g-line g-l1\">World</p>''"
  by code_simp

section \<open>The frame: text outside the matches\<close>

text \<open>
  C7. With the flag on, the content is the matches of the paragraph pattern, in order,
  each after the unmatched text before it, and the unmatched text after the last match;
  the output of both versions is the same sequence with each match replaced by what the
  replacement function returns for it, so every character outside a match is passed
  through unchanged. In particular, when the pattern matches nowhere the output is the
  input.
\<close>

theorem frame_passes_through:
  assumes "gradientEnabled (viewSettings c) = Some True"
    and "rx_results True paragraphRx None (content c) = (segs, tail)"
  shows "content c = concat (map (\<lambda>(pre, whole, caps). pre @ whole) segs) @ tail \<and>
     transform_classes c =
       concat (map (\<lambda>(k, pre, whole, caps). pre @ fst (classes_callback k whole caps))
         (enumerate 0 segs)) @ tail \<and>
     transform_wrapper c =
       concat (map (\<lambda>(k, pre, whole, caps). pre @ fst (wrapper_callback k whole caps))
         (enumerate 0 segs)) @ tail \<and>
     (\<not> rx_test True paragraphRx (content c) \<longrightarrow>
        transform_classes c = content c \<and> transform_wrapper c = content c)"
proof -
  have "transform_classes c = content c \<and> transform_wrapper c = content c"
    if "\<not> rx_test True paragraphRx (content c)"
    using transform_classes_on [OF assms(1) p_results_no_match [OF that]]
      transform_wrapper_on [OF assms(1) p_results_no_match [OF that]]
    by simp
  with p_results_concat [OF assms(2)] transform_classes_on [OF assms]
    transform_wrapper_on [OF assms]
  show ?thesis by simp
qed

theorem frame_passes_through_witness:
  "gradientEnabled (viewSettings (flag_on ''ab<p>x</p>cd'')) = Some True \<and>
   rx_results True paragraphRx None (content (flag_on ''ab<p>x</p>cd'')) =
     ([(''ab'', ''<p>x</p>'', [[], ''x''])], ''cd'') \<and>
   transform_classes (flag_on ''ab<p>x</p>cd'') = ''ab<p class=\"g-line g-l0\">x</p>cd'' \<and>
   transform_wrapper (flag_on ''ab<p>x</p>cd'') =
     ''ab<p class=\"g-line\"><span class=\"g-clip g-l0\">x</span></p>cd''"
proof -
  have f: "gradientEnabled (viewSettings (flag_on ''ab<p>x</p>cd'')) = Some True"
    by (simp add: flag_on_def)
  have r: "rx_results True paragraphRx None (content (flag_on ''ab<p>x</p>cd'')) =
     ([(''ab'', ''<p>x</p>'', [[], ''x''])], ''cd'')"
    by code_simp
  have c: "fst (classes_callback 0 ''<p>x</p>'' [[], ''x'']) = ''<p class=\"g-line g-l0\">x</p>''"
    by code_simp
  have w: "fst (wrapper_callback 0 ''<p>x</p>'' [[], ''x'']) =
      ''<p class=\"g-line\"><span class=\"g-clip g-l0\">x</span></p>''"
    by code_simp
  from frame_passes_through [OF f r] f r c w show ?thesis
    by (simp add: enumerate_eq_zip)
qed


section \<open>The palette\<close>




section \<open>The counter of the wrapper version\<close>

text \<open>
  C9. In the wrapper version every call of the replacement function increments
  \<^verbatim>\<open>paragraphIndex\<close> by one, also when the inner markup already holds a clip wrapper
  and is left as it is. So the blocks after a run of blocks are processed with the counter
  advanced by the length of that run, whichever of these blocks were already wrapped.
\<close>

theorem clipped_block_still_counts:
  "snd (wrapper_callback k whole caps) = Suc k \<and>
   (hasClip (caps ! 1) \<longrightarrow>
      wrapper_callback k whole caps =
        (''<p'' @ class_append ''g-line'' (caps ! 0) @ ''>'' @ caps ! 1 @ ''</p>'', Suc k)) \<and>
   rx_build wrapper_callback k (segs1 @ segs2) =
     (fst (rx_build wrapper_callback k segs1) @
        fst (rx_build wrapper_callback (k + length segs1) segs2),
      k + length segs1 + length segs2) \<and>
   (length segs1 = length segs1' \<longrightarrow>
      rx_build wrapper_callback (snd (rx_build wrapper_callback k segs1)) segs2 =
      rx_build wrapper_callback (snd (rx_build wrapper_callback k segs1')) segs2)"
  by (simp add: wrapper_callback_eq rx_build_append
      rx_build_enumerate [of wrapper_callback, OF wrapper_callback_snd])

theorem clipped_block_still_counts_witness:
  "hasClip ([[], ''<span class=\"g-clip g-l3\">a</span>''] ! 1) \<and>
   wrapper_callback 0 ''<p><span class=\"g-clip g-l3\">a</span></p>''
       [[], ''<span class=\"g-clip g-l3\">a</span>''] =
     (''<p class=\"g-line\"><span class=\"g-clip g-l3\">a</span></p>'', 1) \<and>
   length [([], ''<p><span class=\"g-clip g-l3\">a</span></p>'',
            [[], ''<span class=\"g-clip g-l3\">a</span>''])] =
     length [([], ''<p>a</p>'', [[], ''a''])] \<and>
   rx_build wrapper_callback
     (snd (rx_build wrapper_callback 0
        [([], ''<p><span class=\"g-clip g-l3\">a</span></p>'',
          [[], ''<span class=\"g-clip g-l3\">a</span>''])]))
     [([], ''<p>b</p>'', [[], ''b''])] =
   rx_build wrapper_callback
     (snd (rx_build wrapper_callback 0 [([], ''<p>a</p>'', [[], ''a''])]))
     [([], ''<p>b</p>'', [[], ''b''])]"
proof -
  have h: "hasClip ([[], ''<span class=\"g-clip g-l3\">a</span>''] ! 1)"
    by code_simp
  have c: "class_append ''g-line'' ([[], ''<span class=\"g-clip g-l3\">a</span>''] ! 0) =
      '' class=\"g-line\"''"
    by code_simp
  from clipped_block_still_counts
    [of 0 "''<p><span class=\"g-clip g-l3\">a</span></p>''"
      "[[], ''<span class=\"g-clip g-l3\">a</span>'']"
      "[([], ''<p><span class=\"g-clip g-l3\">a</span></p>'',
          [[], ''<span class=\"g-clip g-l3\">a</span>''])]"
      "[([], ''<p>b</p>'', [[], ''b''])]"
      "[([], ''<p>a</p>'', [[], ''a''])]"] h c
  show ?thesis by (simp add: wrapper_callback_snd)
qed

section \<open>The scan\<close>

text \<open>
  C8. The matches the scan finds do not overlap and come in document order: the content is
  the matches, each after the unmatched text before it, and the text after the last one.
  A match runs from an opening tag with its attributes to the first closing tag after it.
  The counter is incremented once per match: after the scan it is the number of matches,
  and where the pattern matches at the head of a text, that text has exactly one match
  more than the text after the match, whatever paragraph blocks lie inside the match.
\<close>

theorem matches_counted_once:
  assumes "rx_results True paragraphRx None s = (segs, tail)"
  shows "s = concat (map (\<lambda>(pre, whole, caps). pre @ whole) segs) @ tail \<and>
     (\<forall>(pre, whole, caps) \<in> set segs. block_shape whole caps) \<and>
     snd (js_replace_all True paragraphRx classes_callback 0 s) = length segs \<and>
     snd (js_replace_all True paragraphRx wrapper_callback 0 s) = length segs \<and>
     (\<forall>caps rest. rx_match True paragraphRx None s [] = Some (caps, rest) \<longrightarrow>
        length segs = Suc (length (fst (rx_results True paragraphRx None rest))))"
proof -
  have "length segs = Suc (length (fst (rx_results True paragraphRx None rest)))"
    if "rx_match True paragraphRx None s [] = Some (caps, rest)" for caps rest
    using p_match_count [OF that] assms by simp
  then show ?thesis
    using p_results_concat [OF assms] p_results_shape [OF assms] assms
      replace_count [of classes_callback 0 s, OF classes_callback_snd]
      replace_count [of wrapper_callback 0 s, OF wrapper_callback_snd]
    by simp
qed

theorem matches_counted_once_witness:
  "rx_results True paragraphRx None ''<p>a<p>b</p>c</p><p>d</p>'' =
     ([([], ''<p>a<p>b</p>'', [[], ''a<p>b'']), (''c</p>'', ''<p>d</p>'', [[], ''d''])], []) \<and>
   rx_match True paragraphRx None ''<p>a<p>b</p>c</p><p>d</p>'' [] =
     Some ([[], ''a<p>b''], ''c</p><p>d</p>'') \<and>
   snd (js_replace_all True paragraphRx classes_callback 0 ''<p>a<p>b</p>c</p><p>d</p>'') = 2 \<and>
   snd (js_replace_all True paragraphRx wrapper_callback 0 ''<p>a<p>b</p>c</p><p>d</p>'') = 2 \<and>
   length (fst (rx_results True paragraphRx None ''c</p><p>d</p>'')) = 1"
proof -
  have r: "rx_results True paragraphRx None ''<p>a<p>b</p>c</p><p>d</p>'' =
     ([([], ''<p>a<p>b</p>'', [[], ''a<p>b'']), (''c</p>'', ''<p>d</p>'', [[], ''d''])], [])"
    by code_simp
  have m: "rx_match True paragraphRx None ''<p>a<p>b</p>c</p><p>d</p>'' [] =
     Some ([[], ''a<p>b''], ''c</p><p>d</p>'')"
    by code_simp
  from matches_counted_once [OF r] r m show ?thesis
    by simp
qed

section \<open>Running the wrapper version on its own output\<close>

text \<open>
  C5, as stated, fails: how many clip wrappers a block holds after the second run depends
  on the original markup. A span that has the clip marker after another attribute is not
  seen by \<^verbatim>\<open>hasClip\<close>, so the first run puts a clip wrapper around it, and the block
  holds two, nested. A span of class \<^verbatim>\<open>g-clip-x\<close> is taken for a clip wrapper, so
  the block is never wrapped and holds none.
\<close>

theorem rewrap_adds_no_wrapper_counterexample:
  "transform_wrapper (flag_on (transform_wrapper
      (flag_on ''<p><span id=\"a\" class=\"g-clip g-l2\">y</span></p>''))) =
     ''<p class=\"g-line g-line\"><span class=\"g-clip g-l0\">'' @
     ''<span id=\"a\" class=\"g-clip g-l2\">y</span></span></p>'' \<and>
   transform_wrapper (flag_on (transform_wrapper
      (flag_on ''<p><span class=\"g-clip-x\">y</span></p>''))) =
     ''<p class=\"g-line g-line\"><span class=\"g-clip-x\">y</span></p>''"
  by code_simp

text \<open>
  C5, amended. With the flag on, the scan of the output of the wrapper version finds
  exactly the blocks it has written, each with the inner markup that \<^verbatim>\<open>wrappedInner\<close>
  gave it: the original inner markup where \<^verbatim>\<open>hasClip\<close> matched it, and the original
  inner markup in one added clip wrapper otherwise. \<^verbatim>\<open>hasClip\<close> matches the inner
  markup of every one of these blocks, so a second run adds no wrapper: its output
  differs from the first in the class attributes alone, and the inner markup of block
  \<open>k\<close> after the second run is the inner markup after the first, \<^verbatim>\<open>wrappedInner\<close> of
  the original.
\<close>

theorem rewrap_adds_no_wrapper:
  assumes "gradientEnabled (viewSettings c) = Some True"
    and "rx_results True paragraphRx None (content c) = (segs, tail)"
    and "rx_results True paragraphRx None (transform_wrapper c) = (segs1, tail1)"
  shows "segs1 =
       map (\<lambda>(k, pre, whole, caps).
              (pre,
               ''<p'' @ class_append ''g-line'' (caps ! 0) @ ''>'' @ wrappedInner k (caps ! 1) @
                 ''</p>'',
               [class_append ''g-line'' (caps ! 0), wrappedInner k (caps ! 1)]))
          (enumerate 0 segs) \<and>
     tail1 = tail \<and>
     (\<forall>(pre, whole, caps) \<in> set segs1. hasClip (caps ! 1)) \<and>
     transform_wrapper (c\<lparr>content := transform_wrapper c\<rparr>) =
       concat (map (\<lambda>(pre, whole, caps).
           pre @ ''<p'' @ class_append ''g-line'' (caps ! 0) @ ''>'' @ caps ! 1 @ ''</p>'')
         segs1) @ tail1 \<and>
     map (\<lambda>(pre, whole, caps). caps ! 1)
         (fst (rx_results True paragraphRx None
            (transform_wrapper (c\<lparr>content := transform_wrapper c\<rparr>)))) =
       map (\<lambda>(pre, whole, caps). caps ! 1) segs1 \<and>
     map (\<lambda>(pre, whole, caps). caps ! 1) segs1 =
       map (\<lambda>(k, pre, whole, caps). wrappedInner k (caps ! 1)) (enumerate 0 segs)"
proof -
  let ?c' = "c\<lparr>content := transform_wrapper c\<rparr>"
  have on': "gradientEnabled (viewSettings ?c') = Some True"
    using assms(1) by simp
  have r': "rx_results True paragraphRx None (content ?c') = (segs1, tail1)"
    using assms(3) by simp
  have o1: "transform_wrapper c = fst (rx_build wrapper_callback 0 segs) @ tail"
    by (rule transform_wrapper_build [OF assms(1,2)])
  have o2: "transform_wrapper ?c' = fst (rx_build wrapper_callback 0 segs1) @ tail1"
    by (rule transform_wrapper_build [OF on' r'])
  from wrapper_rescan [OF assms(2), of 0] assms(3) o1
  have s1: "segs1 =
       map (\<lambda>(k, pre, whole, caps).
              (pre,
               ''<p'' @ class_append ''g-line'' (caps ! 0) @ ''>'' @ wrappedInner k (caps ! 1) @
                 ''</p>'',
               [class_append ''g-line'' (caps ! 0), wrappedInner k (caps ! 1)]))
          (enumerate 0 segs)" and t1: "tail1 = tail"
    by simp_all
  have cl: "\<forall>(pre, whole, caps) \<in> set segs1. hasClip (caps ! 1)"
    by (rule rescan_inner_clipped [OF s1])
  have third: "transform_wrapper ?c' =
       concat (map (\<lambda>(pre, whole, caps).
           pre @ ''<p'' @ class_append ''g-line'' (caps ! 0) @ ''>'' @ caps ! 1 @ ''</p>'')
         segs1) @ tail1"
    unfolding o2 rebuild_clipped [OF cl] ..
  have "rx_results True paragraphRx None (transform_wrapper ?c') =
       (map (\<lambda>(j, pre, whole, caps).
              (pre,
               ''<p'' @ class_append ''g-line'' (caps ! 0) @ ''>'' @ wrappedInner j (caps ! 1) @
                 ''</p>'',
               [class_append ''g-line'' (caps ! 0), wrappedInner j (caps ! 1)]))
          (enumerate 0 segs1), tail1)"
    unfolding o2 by (rule wrapper_rescan [OF r'])
  then have fourth: "map (\<lambda>(pre, whole, caps). caps ! 1)
         (fst (rx_results True paragraphRx None (transform_wrapper ?c'))) =
       map (\<lambda>(pre, whole, caps). caps ! 1) segs1"
    using rescan_inner_same [OF cl, of 0] by simp
  have fifth: "map (\<lambda>(pre, whole, caps). caps ! 1) segs1 =
       map (\<lambda>(k, pre, whole, caps). wrappedInner k (caps ! 1)) (enumerate 0 segs)"
    by (simp add: s1 comp_def split_def)
  show ?thesis
    by (intro conjI s1 t1 cl third fourth fifth)
qed

theorem rewrap_adds_no_wrapper_witness:
  "gradientEnabled (viewSettings
     (flag_on ''<p>a</p>x<p><span class=\"g-clip g-l3\">b</span></p>'')) = Some True \<and>
   rx_results True paragraphRx None
     (content (flag_on ''<p>a</p>x<p><span class=\"g-clip g-l3\">b</span></p>'')) =
     ([([], ''<p>a</p>'', [[], ''a'']),
       (''x'', ''<p><span class=\"g-clip g-l3\">b</span></p>'',
        [[], ''<span class=\"g-clip g-l3\">b</span>''])], []) \<and>
   rx_results True paragraphRx None
     (transform_wrapper (flag_on ''<p>a</p>x<p><span class=\"g-clip g-l3\">b</span></p>'')) =
     ([([], ''<p class=\"g-line\"><span class=\"g-clip g-l0\">a</span></p>'',
        ['' class=\"g-line\"'', ''<span class=\"g-clip g-l0\">a</span>'']),
       (''x'', ''<p class=\"g-line\"><span class=\"g-clip g-l3\">b</span></p>'',
        ['' class=\"g-line\"'', ''<span class=\"g-clip g-l3\">b</span>''])], []) \<and>
   transform_wrapper
     ((flag_on ''<p>a</p>x<p><span class=\"g-clip g-l3\">b</span></p>'')
        \<lparr>content := transform_wrapper
           (flag_on ''<p>a</p>x<p><span class=\"g-clip g-l3\">b</span></p>'')\<rparr>) =
     ''<p class=\"g-line g-line\"><span class=\"g-clip g-l0\">a</span></p>x'' @
     ''<p class=\"g-line g-line\"><span class=\"g-clip g-l3\">b</span></p>''"
proof -
  let ?c = "flag_on ''<p>a</p>x<p><span class=\"g-clip g-l3\">b</span></p>''"
  have f: "gradientEnabled (viewSettings ?c) = Some True"
    by (simp add: flag_on_def)
  have r: "rx_results True paragraphRx None (content ?c) =
     ([([], ''<p>a</p>'', [[], ''a'']),
       (''x'', ''<p><span class=\"g-clip g-l3\">b</span></p>'',
        [[], ''<span class=\"g-clip g-l3\">b</span>''])], [])"
    by code_simp
  have o: "transform_wrapper ?c =
      ''<p class=\"g-line\"><span class=\"g-clip g-l0\">a</span></p>x'' @
      ''<p class=\"g-line\"><span class=\"g-clip g-l3\">b</span></p>''"
    by code_simp
  have "rx_results True paragraphRx None
     (''<p class=\"g-line\"><span class=\"g-clip g-l0\">a</span></p>x'' @
      ''<p class=\"g-line\"><span class=\"g-clip g-l3\">b</span></p>'') =
     ([([], ''<p class=\"g-line\"><span class=\"g-clip g-l0\">a</span></p>'',
        ['' class=\"g-line\"'', ''<span class=\"g-clip g-l0\">a</span>'']),
       (''x'', ''<p class=\"g-line\"><span class=\"g-clip g-l3\">b</span></p>'',
        ['' class=\"g-line\"'', ''<span class=\"g-clip g-l3\">b</span>''])], [])"
    by code_simp
  then have r1: "rx_results True paragraphRx None (transform_wrapper ?c) =
     ([([], ''<p class=\"g-line\"><span class=\"g-clip g-l0\">a</span></p>'',
        ['' class=\"g-line\"'', ''<span class=\"g-clip g-l0\">a</span>'']),
       (''x'', ''<p class=\"g-line\"><span class=\"g-clip g-l3\">b</span></p>'',
        ['' class=\"g-line\"'', ''<span class=\"g-clip g-l3\">b</span>''])], [])"
    unfolding o .
  have a: "class_append ''g-line'' '' class=\"g-line\"'' = '' class=\"g-line g-line\"''"
    by code_simp
  have t: "transform_wrapper (?c\<lparr>content := transform_wrapper ?c\<rparr>) =
     ''<p class=\"g-line g-line\"><span class=\"g-clip g-l0\">a</span></p>x'' @
     ''<p class=\"g-line g-line\"><span class=\"g-clip g-l3\">b</span></p>''"
    using rewrap_adds_no_wrapper [OF f r r1] a by simp
  show ?thesis
    by (intro conjI f r r1 t)
qed

section \<open>Merging into the class attribute\<close>




section \<open>A single-quoted class attribute\<close>

text \<open>
  C10, as stated, fails: a tag with a single-quoted class attribute and a second
  attribute whose text ends in \<^verbatim>\<open>class="..."\<close> gets no new class attribute; the
  tokens are appended to the value of the second attribute.
\<close>

theorem single_quoted_class_counterexample:
  "transform_classes
     (flag_on (''<p class='' @ [CHR 0x27] @ ''foo'' @ [CHR 0x27] @ '' data-class=\"x\">y</p>'')) =
     ''<p class='' @ [CHR 0x27] @ ''foo'' @ [CHR 0x27] @
       '' data-class=\"x g-line g-l0\">y</p>'' \<and>
   transform_classes
     (flag_on (''<p class='' @ [CHR 0x27] @ ''foo'' @ [CHR 0x27] @ '' data-class=\"x\">y</p>'')) \<noteq>
     ''<p class='' @ [CHR 0x27] @ ''foo'' @ [CHR 0x27] @
       '' data-class=\"x\" class=\"g-line g-l0\">y</p>'' \<and>
   transform_wrapper
     (flag_on (''<p class='' @ [CHR 0x27] @ ''foo'' @ [CHR 0x27] @ '' data-class=\"x\">y</p>'')) =
     ''<p class='' @ [CHR 0x27] @ ''foo'' @ [CHR 0x27] @
       '' data-class=\"x g-line\"><span class=\"g-clip g-l0\">y</span></p>''"
  by code_simp

text \<open>
  C10, amended. The class pattern does not match at a class attribute written with
  single quotes, whatever the rest of the tag. Where the attribute text of the opening
  tag holds such an attribute and no text \<^verbatim>\<open>class="\<close> (in any letter case) before it
  or after its opening quote, both versions leave the attribute text as it is and append
  a second, double-quoted class attribute with the new tokens: \<^verbatim>\<open>g-line\<close> and the
  shade token in the classes-only version, \<^verbatim>\<open>g-line\<close> in the wrapper version.
\<close>

theorem single_quoted_class:
  "(attrs = pre @ nm @ [CHR 0x27] @ v @ [CHR 0x27] @ post \<and> map canonicalize nm = ''CLASS='' \<longrightarrow>
      rx_match True classRegex prev (drop (length pre) attrs) [] = None) \<and>
   (attrs = pre @ nm @ [CHR 0x27] @ v @ [CHR 0x27] @ post \<and> map canonicalize nm = ''CLASS='' \<and>
    \<not> holds_text ''class=\"'' pre \<and> \<not> holds_text ''class=\"'' (v @ [CHR 0x27] @ post) \<longrightarrow>
      fst (classes_callback k whole [attrs, inner]) =
        ''<p'' @ pre @ nm @ [CHR 0x27] @ v @ [CHR 0x27] @ post @
          '' class=\"g-line g-l'' @ [''0123'' ! (k mod 4)] @ ''\">'' @ inner @ ''</p>'' \<and>
      fst (wrapper_callback k whole [attrs, inner]) =
        ''<p'' @ pre @ nm @ [CHR 0x27] @ v @ [CHR 0x27] @ post @ '' class=\"g-line\">'' @
          (if hasClip inner then inner
           else ''<span class=\"g-clip g-l'' @ [''0123'' ! (k mod 4)] @ ''\">'' @ inner @
             ''</span>'') @ ''</p>'')"
proof (intro conjI impI)
  assume h: "attrs = pre @ nm @ [CHR 0x27] @ v @ [CHR 0x27] @ post \<and>
    map canonicalize nm = ''CLASS=''"
  from c_head_single_quote [OF conjunct2 [OF h], of "v @ [CHR 0x27] @ post"]
  show "rx_match True classRegex prev (drop (length pre) attrs) [] = None"
    unfolding conjunct1 [OF h] c_match by simp
next
  assume h: "attrs = pre @ nm @ [CHR 0x27] @ v @ [CHR 0x27] @ post \<and>
    map canonicalize nm = ''CLASS='' \<and>
    \<not> holds_text ''class=\"'' pre \<and> \<not> holds_text ''class=\"'' (v @ [CHR 0x27] @ post)"
  have a: "attrs = pre @ nm @ [CHR 0x27] @ v @ [CHR 0x27] @ post" by (rule conjunct1 [OF h])
  have n: "map canonicalize nm = ''CLASS=''" by (rule conjunct1 [OF conjunct2 [OF h]])
  have p: "\<not> holds_text ''class=\"'' pre" by (rule conjunct1 [OF conjunct2 [OF conjunct2 [OF h]]])
  have w: "\<not> holds_text ''class=\"'' (v @ [CHR 0x27] @ post)"
    by (rule conjunct2 [OF conjunct2 [OF conjunct2 [OF h]]])
  from single_quote_no_text [OF n p w] have "\<not> holds_text ''class=\"'' attrs"
    unfolding a by simp
  then have "rx_search True classRegex None attrs = None" by (rule no_class_text_search)
  then have t: "\<not> rx_test True classRegex attrs" by (simp add: rx_test_def)
  have "fst (classes_callback k whole [attrs, inner]) =
        ''<p'' @ attrs @ '' class=\"g-line g-l'' @ [''0123'' ! (k mod 4)] @ ''\">'' @
          inner @ ''</p>''"
    by (simp add: classes_callback_eq class_append_none [OF t])
  with a show "fst (classes_callback k whole [attrs, inner]) =
        ''<p'' @ pre @ nm @ [CHR 0x27] @ v @ [CHR 0x27] @ post @
          '' class=\"g-line g-l'' @ [''0123'' ! (k mod 4)] @ ''\">'' @ inner @ ''</p>''"
    by simp
  have "fst (wrapper_callback k whole [attrs, inner]) =
        ''<p'' @ attrs @ '' class=\"g-line\">'' @
          (if hasClip inner then inner
           else ''<span class=\"g-clip g-l'' @ [''0123'' ! (k mod 4)] @ ''\">'' @ inner @
             ''</span>'') @ ''</p>''"
    by (simp add: wrapper_callback_eq class_append_none [OF t])
  with a show "fst (wrapper_callback k whole [attrs, inner]) =
        ''<p'' @ pre @ nm @ [CHR 0x27] @ v @ [CHR 0x27] @ post @ '' class=\"g-line\">'' @
          (if hasClip inner then inner
           else ''<span class=\"g-clip g-l'' @ [''0123'' ! (k mod 4)] @ ''\">'' @ inner @
             ''</span>'') @ ''</p>''"
    by simp
qed

theorem single_quoted_class_witness:
  "'' id=\"a\" class='' @ [CHR 0x27] @ ''foo'' @ [CHR 0x27] @ '' x'' =
     '' id=\"a\" '' @ ''class='' @ [CHR 0x27] @ ''foo'' @ [CHR 0x27] @ '' x'' \<and>
   map canonicalize ''class='' = ''CLASS='' \<and>
   rx_match True classRegex None
     (drop (length '' id=\"a\" '')
        ('' id=\"a\" class='' @ [CHR 0x27] @ ''foo'' @ [CHR 0x27] @ '' x'')) [] = None \<and>
   \<not> holds_text ''class=\"'' '' id=\"a\" '' \<and>
   \<not> holds_text ''class=\"'' (''foo'' @ [CHR 0x27] @ '' x'') \<and>
   fst (classes_callback 0 []
      ['' id=\"a\" class='' @ [CHR 0x27] @ ''foo'' @ [CHR 0x27] @ '' x'', ''y'']) =
     ''<p id=\"a\" class='' @ [CHR 0x27] @ ''foo'' @ [CHR 0x27] @
       '' x class=\"g-line g-l0\">y</p>'' \<and>
   fst (wrapper_callback 0 []
      ['' id=\"a\" class='' @ [CHR 0x27] @ ''foo'' @ [CHR 0x27] @ '' x'', ''y'']) =
     ''<p id=\"a\" class='' @ [CHR 0x27] @ ''foo'' @ [CHR 0x27] @
       '' x class=\"g-line\"><span class=\"g-clip g-l0\">y</span></p>''"
proof -
  let ?attrs = "'' id=\"a\" class='' @ [CHR 0x27] @ ''foo'' @ [CHR 0x27] @ '' x''"
  have a: "?attrs = '' id=\"a\" '' @ ''class='' @ [CHR 0x27] @ ''foo'' @ [CHR 0x27] @ '' x''"
    by simp
  have b: "map canonicalize ''class='' = ''CLASS=''"
    by (simp add: canonicalize_def)
  have p: "\<not> holds_text ''class=\"'' '' id=\"a\" ''" by code_simp
  have w: "\<not> holds_text ''class=\"'' (''foo'' @ [CHR 0x27] @ '' x'')" by code_simp
  have h: "\<not> hasClip ''y''" by code_simp
  have m0: "rx_match True classRegex None (drop (length '' id=\"a\" '') ?attrs) [] = None"
    by (rule single_quoted_class [of ?attrs "'' id=\"a\" ''" "''class=''" "''foo''" "'' x''"
          None 0 "[]" "''y''", THEN conjunct1, THEN mp, OF conjI [OF a b]])
  have m: "fst (classes_callback 0 [] [?attrs, ''y'']) =
     ''<p id=\"a\" class='' @ [CHR 0x27] @ ''foo'' @ [CHR 0x27] @
       '' x class=\"g-line g-l0\">y</p>'' \<and>
   fst (wrapper_callback 0 [] [?attrs, ''y'']) =
     ''<p id=\"a\" class='' @ [CHR 0x27] @ ''foo'' @ [CHR 0x27] @
       '' x class=\"g-line\"><span class=\"g-clip g-l0\">y</span></p>''"
    using single_quoted_class [of ?attrs "'' id=\"a\" ''" "''class=''" "''foo''" "'' x''"
          None 0 "[]" "''y''", THEN conjunct2, THEN mp,
          OF conjI [OF a conjI [OF b conjI [OF p w]]]] h
    by simp
  show ?thesis
    by (intro conjI a b m0 p w conjunct1 [OF m] conjunct2 [OF m])
qed

section \<open>Calls share no state\<close>

text \<open>
  C6. A call of \<^verbatim>\<open>transform\<close> started in any store returns what the function of the
  content and the flag returns (\<open>transform_wrapper\<close>, \<open>transform_classes\<close>), so its output
  does not depend on the store, and it leaves every cell that existed before the call as
  it was: the counter is the cell the call has created. Hence a second call on the same
  context, in the store the first call has left, has the same output as the first.
\<close>

theorem calls_share_no_state:
  "fst (transform_wrapper_call st c) = transform_wrapper c \<and>
   fst (transform_classes_call st c) = transform_classes c \<and>
   take (length st) (snd (transform_wrapper_call st c)) = st \<and>
   take (length st) (snd (transform_classes_call st c)) = st \<and>
   fst (transform_wrapper_call st c) = fst (transform_wrapper_call st' c) \<and>
   fst (transform_classes_call st c) = fst (transform_classes_call st' c) \<and>
   fst (transform_wrapper_call (snd (transform_wrapper_call st c)) c) =
     fst (transform_wrapper_call st c) \<and>
   fst (transform_classes_call (snd (transform_classes_call st c)) c) =
     fst (transform_classes_call st c)"
proof -
  have w: "fst (transform_wrapper_call s c) = transform_wrapper c" for s
    by (simp add: transform_wrapper_call_def transform_wrapper_def replace_closure)
  have k: "fst (transform_classes_call s c) = transform_classes c" for s
    by (simp add: transform_classes_call_def transform_classes_def replace_closure)
  have fw: "take (length st) (snd (transform_wrapper_call st c)) = st"
    by (simp add: transform_wrapper_call_def replace_closure)
  have fk: "take (length st) (snd (transform_classes_call st c)) = st"
    by (simp add: transform_classes_call_def replace_closure)
  show ?thesis
    by (simp add: w k fw fk)
qed

end
